theory Spec2Isabelle
  imports Complex_Main "HOL-Library.Sublist"
begin

section \<open>Data model\<close>

text \<open>
  The kernels of \<open>example_pyamg_smoothed_aggregation.h\<close> work on flat arrays in
  compressed-row form. An array is modelled as a list. Values of the index type \<open>I\<close>
  that are row pointers, column indices or node numbers are non-negative in every
  well-formed matrix and are modelled as \<open>nat\<close>; the aggregate labelling \<open>x\<close>, which
  holds negative sentinels, is an \<open>int list\<close>. A loop \<open>for (jj = a; jj < b; jj++)\<close> is a
  \<open>fold\<close> over \<open>[a..<b]\<close>; a loop that leaves early is a recursive function.
  Reads and writes outside an array are undefined in the source; the theorems below
  assume the sizes that keep every access inside its array.
\<close>

text \<open>Row \<open>i\<close> of a CSR matrix: its stored (column, value) pairs in storage order.\<close>

definition csr_row :: "nat list \<Rightarrow> nat list \<Rightarrow> 'a list \<Rightarrow> nat \<Rightarrow> (nat \<times> 'a) list" where
  "csr_row Ap Aj Ax i = map (\<lambda>jj. (Aj ! jj, Ax ! jj)) [Ap ! i..<Ap ! (i + 1)]"

text \<open>
  A well-formed pattern with \<open>n_row\<close> rows and \<open>n_col\<close> columns: \<open>n_row + 1\<close> row
  pointers, non-decreasing, inside the index array, and every stored column index
  below \<open>n_col\<close>.
\<close>

definition csr_wf :: "nat \<Rightarrow> nat \<Rightarrow> nat list \<Rightarrow> nat list \<Rightarrow> bool" where
  "csr_wf n_row n_col Ap Aj \<longleftrightarrow>
     length Ap = n_row + 1 \<and> (\<forall>i\<in>{0..<n_row}. Ap ! i \<le> Ap ! (i + 1)) \<and>
     Ap ! n_row \<le> length Aj \<and> (\<forall>jj\<in>{Ap ! 0..<Ap ! n_row}. Aj ! jj < n_col)"

text \<open>
  Modelled from the spec: \<open>mynorm\<close> and \<open>mynormsq\<close> of \<open>linalg.h\<close>, which is not among
  the sources. The spec describes them as the magnitude (absolute value) of a scalar and
  its squared magnitude; these are the instances for real scalar types.
\<close>

definition mynorm :: "'a::linordered_idom \<Rightarrow> 'a" where
  "mynorm x = \<bar>x\<bar>"

definition mynormsq :: "'a::linordered_idom \<Rightarrow> 'a" where
  "mynormsq x = x * x"

section \<open>Double-precision arithmetic\<close>

text \<open>
  The kernels are templates over their scalar types. The models of the strength, product
  and constraint kernels assume no law of arithmetic, so that their theorems hold for the
  instantiation with \<open>double\<close> as they do for exact numbers. This section gives that
  arithmetic on finite numbers, for the examples that are evaluated in it: an operation returns its exact result
  rounded to the nearest number with a significand of 53 bits, a tie going to the even
  significand (binary64, round to nearest even). A \<open>double\<close> is modelled by the real number
  it denotes. Overflow, subnormal numbers, infinities and NaN are not modelled; the numbers
  of the examples are far inside the normal range.
\<close>

text \<open>The number of binary digits of \<open>n\<close>.\<close>

fun bit_length :: "nat \<Rightarrow> nat" where
  "bit_length n = (if n = 0 then 0 else Suc (bit_length (n div 2)))"

declare bit_length.simps [simp del]

text \<open>The exponent \<open>e\<close> of a nonzero \<open>x\<close>: \<open>2\<^sup>e \<le> |x| < 2\<^sup>e\<^sup>+\<^sup>1\<close>.\<close>

definition binary_exponent :: "real \<Rightarrow> int" where
  "binary_exponent x =
     (if 1 \<le> \<bar>x\<bar> then int (bit_length (nat \<lfloor>\<bar>x\<bar>\<rfloor>)) - 1
      else - int (bit_length (nat \<lceil>1 / \<bar>x\<bar>\<rceil> - 1)))"

definition pow2 :: "int \<Rightarrow> real" where
  "pow2 k = (if 0 \<le> k then 2 ^ nat k else 1 / 2 ^ nat (- k))"

text \<open>The nearest integer, a tie going to the even one.\<close>

definition round_half_even :: "real \<Rightarrow> int" where
  "round_half_even q =
     (let f = \<lfloor>q\<rfloor>; r = q - of_int f
      in if r < 1 / 2 then f else if 1 / 2 < r then f + 1 else if even f then f else f + 1)"

definition round_double :: "real \<Rightarrow> real" where
  "round_double x =
     (if x = 0 then 0
      else let ulp = pow2 (binary_exponent x - 52) in of_int (round_half_even (x / ulp)) * ulp)"

definition double_add :: "real \<Rightarrow> real \<Rightarrow> real" where
  "double_add a b = round_double (a + b)"

definition double_sub :: "real \<Rightarrow> real \<Rightarrow> real" where
  "double_sub a b = round_double (a - b)"

definition double_mul :: "real \<Rightarrow> real \<Rightarrow> real" where
  "double_mul a b = round_double (a * b)"

text \<open>
  The type \<open>double\<close> with its operations, for the kernels that are modelled over the
  operations of their scalar type.
\<close>

datatype double = Double (double_value: real)

instantiation double :: "{zero,plus,times,ord}"
begin

definition zero_double :: double where
  "zero_double = Double 0"

definition plus_double :: "double \<Rightarrow> double \<Rightarrow> double" where
  "plus_double a b = Double (double_add (double_value a) (double_value b))"

definition times_double :: "double \<Rightarrow> double \<Rightarrow> double" where
  "times_double a b = Double (double_mul (double_value a) (double_value b))"

definition less_eq_double :: "double \<Rightarrow> double \<Rightarrow> bool" where
  "less_eq_double a b \<longleftrightarrow> double_value a \<le> double_value b"

definition less_double :: "double \<Rightarrow> double \<Rightarrow> bool" where
  "less_double a b \<longleftrightarrow> double_value a < double_value b"

instance ..

end

text \<open>
  Modelled from the spec: \<open>mynorm\<close> and \<open>mynormsq\<close> of \<open>linalg.h\<close> (not among the sources) for
  \<open>double\<close>, the magnitude and the squared magnitude; the square is a rounded product.
\<close>

definition double_mynorm :: "double \<Rightarrow> double" where
  "double_mynorm a = Double \<bar>double_value a\<bar>"

definition double_mynormsq :: "double \<Rightarrow> double" where
  "double_mynormsq a = a * a"

section \<open>Strength of connection: the kernel\<close>

text \<open>
  \<open>symmetric_strength_of_connection\<close> (lines 46-93). The scalar helpers are parameters
  \<open>nrm\<close> (for \<open>mynorm\<close>) and \<open>nrmsq\<close> (for \<open>mynormsq\<close>). The kernel is modelled for every
  value type \<open>T\<close> with a zero and an addition and every norm type \<open>F\<close> with a product and a
  comparison. These operations are those of the types and obey no law in the model: the
  sum, the products and the comparison may round, overflow or fail to be transitive, as
  floating-point operations do.
\<close>

record 'a strength_state =
  nnz :: nat
  Sp_arr :: "nat list"
  Sj_arr :: "nat list"
  Sx_arr :: "'a list"

text \<open>Lines 58-63: the sum of the stored diagonal entries of row \<open>i\<close>.\<close>

definition diag_of_row :: "nat list \<Rightarrow> nat list \<Rightarrow> 'a::{plus,zero} list \<Rightarrow> nat \<Rightarrow> 'a" where
  "diag_of_row Ap Aj Ax i =
     fold (\<lambda>jj diag. if Aj ! jj = i then diag + Ax ! jj else diag) [Ap ! i..<Ap ! (i + 1)] 0"

text \<open>Lines 54-65: the vector \<open>diags\<close>.\<close>

definition compute_diags ::
  "('a::{plus,zero} \<Rightarrow> 'f::zero) \<Rightarrow> nat \<Rightarrow> nat list \<Rightarrow> nat list \<Rightarrow> 'a list \<Rightarrow> 'f list" where
  "compute_diags nrm n_row Ap Aj Ax =
     fold (\<lambda>i diags. diags[i := nrm (diag_of_row Ap Aj Ax i)]) [0..<n_row] (replicate n_row 0)"

text \<open>Lines 80-82 and 86-88: store the entry \<open>(j, Aij)\<close> at position \<open>nnz\<close>.\<close>

definition push_entry :: "nat \<Rightarrow> 'a \<Rightarrow> 'a strength_state \<Rightarrow> 'a strength_state" where
  "push_entry j Aij st =
     st\<lparr>Sj_arr := (Sj_arr st)[nnz st := j], Sx_arr := (Sx_arr st)[nnz st := Aij], nnz := nnz st + 1\<rparr>"

text \<open>Lines 75-89: the body of the inner loop of row \<open>i\<close> at position \<open>jj\<close>.\<close>

definition strength_entry ::
  "('a \<Rightarrow> 'f::{ord,times}) \<Rightarrow> 'f list \<Rightarrow> nat list \<Rightarrow> 'a list \<Rightarrow> nat \<Rightarrow> 'f \<Rightarrow> nat \<Rightarrow>
   'a strength_state \<Rightarrow> 'a strength_state" where
  "strength_entry nrmsq diags Aj Ax i eps_Aii jj st =
     (let j = Aj ! jj; Aij = Ax ! jj in
      if i = j then push_entry j Aij st
      else if nrmsq Aij \<ge> eps_Aii * diags ! j then push_entry j Aij st
      else st)"

text \<open>Lines 70-92: one iteration of the outer loop.\<close>

definition strength_row ::
  "('a \<Rightarrow> 'f::{ord,times}) \<Rightarrow> 'f \<Rightarrow> 'f list \<Rightarrow> nat list \<Rightarrow> nat list \<Rightarrow> 'a list \<Rightarrow> nat \<Rightarrow>
   'a strength_state \<Rightarrow> 'a strength_state" where
  "strength_row nrmsq theta diags Ap Aj Ax i st =
     (let eps_Aii = theta * theta * diags ! i;
          st' = fold (strength_entry nrmsq diags Aj Ax i eps_Aii) [Ap ! i..<Ap ! (i + 1)] st
      in st'\<lparr>Sp_arr := (Sp_arr st')[i + 1 := nnz st']\<rparr>)"

text \<open>
  The kernel. The caller's preallocated output arrays come in as \<open>Sp0\<close>, \<open>Sj0\<close>, \<open>Sx0\<close>;
  the result is their contents on return.
\<close>

definition symmetric_strength_of_connection ::
  "('a::{plus,zero} \<Rightarrow> 'f::{ord,times,zero}) \<Rightarrow> ('a \<Rightarrow> 'f) \<Rightarrow> nat \<Rightarrow> 'f \<Rightarrow>
   nat list \<Rightarrow> nat list \<Rightarrow> 'a list \<Rightarrow> nat list \<Rightarrow> nat list \<Rightarrow> 'a list \<Rightarrow>
   nat list \<times> nat list \<times> 'a list" where
  "symmetric_strength_of_connection nrm nrmsq n_row theta Ap Aj Ax Sp0 Sj0 Sx0 =
     (let diags = compute_diags nrm n_row Ap Aj Ax;
          st0 = \<lparr>nnz = 0, Sp_arr = Sp0[0 := 0], Sj_arr = Sj0, Sx_arr = Sx0\<rparr> :: 'a strength_state;
          st = fold (strength_row nrmsq theta diags Ap Aj Ax) [0..<n_row] st0
      in (Sp_arr st, Sj_arr st, Sx_arr st))"

subsection \<open>Vocabulary of the strength properties\<close>

text \<open>
  \<open>diag[k]\<close>: the norm of the sum of the stored diagonal entries of row \<open>k\<close>. The sum is
  taken in the arithmetic of the value type, from zero and in storage order; no law of
  addition is assumed, so a rounding addition is covered as well as an exact one.
\<close>

definition csr_diag :: "('a::{plus,zero} \<Rightarrow> 'f) \<Rightarrow> nat list \<Rightarrow> nat list \<Rightarrow> 'a list \<Rightarrow> nat \<Rightarrow> 'f" where
  "csr_diag nrm Ap Aj Ax k =
     nrm (foldl (+) 0 (map snd (filter (\<lambda>e. fst e = k) (csr_row Ap Aj Ax k))))"

text \<open>
  The strength test of a stored entry \<open>e = (j, v)\<close> of row \<open>i\<close>:
  \<open>normSquared v \<ge> theta\<^sup>2 * diag[i] * diag[j]\<close>, with \<open>theta\<^sup>2\<close> the product \<open>theta * theta\<close> and
  the products taken from left to right in the arithmetic of the norm type. No law of
  multiplication or of the order is assumed.
\<close>

definition is_strong ::
  "('a::{plus,zero} \<Rightarrow> 'f::{ord,times}) \<Rightarrow> ('a \<Rightarrow> 'f) \<Rightarrow> 'f \<Rightarrow> nat list \<Rightarrow> nat list \<Rightarrow> 'a list \<Rightarrow>
   nat \<Rightarrow> nat \<times> 'a \<Rightarrow> bool" where
  "is_strong nrm nrmsq theta Ap Aj Ax i e \<longleftrightarrow>
     nrmsq (snd e) \<ge> theta * theta * csr_diag nrm Ap Aj Ax i * csr_diag nrm Ap Aj Ax (fst e)"

text \<open>The entries written so far, and the test the loop body applies to an entry.\<close>

definition out :: "'a strength_state \<Rightarrow> (nat \<times> 'a) list" where
  "out st = map (\<lambda>k. (Sj_arr st ! k, Sx_arr st ! k)) [0..<nnz st]"

definition strong :: "('a \<Rightarrow> 'f::{ord,times}) \<Rightarrow> 'f list \<Rightarrow> nat \<Rightarrow> 'f \<Rightarrow> nat \<times> 'a \<Rightarrow> bool" where
  "strong nrmsq diags i eps_Aii e \<longleftrightarrow> i = fst e \<or> nrmsq (snd e) \<ge> eps_Aii * diags ! fst e"

definition kept_upto ::
  "(nat \<Rightarrow> nat \<times> 'a \<Rightarrow> bool) \<Rightarrow> nat list \<Rightarrow> nat list \<Rightarrow> 'a list \<Rightarrow> nat \<Rightarrow> (nat \<times> 'a) list" where
  "kept_upto keep Ap Aj Ax k = concat (map (\<lambda>i. filter (keep i) (csr_row Ap Aj Ax i)) [0..<k])"

text \<open>The invariant of the outer loop after \<open>k\<close> rows.\<close>

definition strength_inv ::
  "(nat \<Rightarrow> nat \<times> 'a \<Rightarrow> bool) \<Rightarrow> nat list \<Rightarrow> nat list \<Rightarrow> 'a list \<Rightarrow> nat \<Rightarrow> nat \<Rightarrow> nat \<Rightarrow>
   'a strength_state \<Rightarrow> bool" where
  "strength_inv keep Ap Aj Ax n cap k st \<longleftrightarrow>
     out st = kept_upto keep Ap Aj Ax k \<and> nnz st = length (kept_upto keep Ap Aj Ax k) \<and>
     (\<forall>i\<le>k. Sp_arr st ! i = length (kept_upto keep Ap Aj Ax i)) \<and>
     length (Sp_arr st) = n + 1 \<and> cap \<le> length (Sj_arr st) \<and> cap \<le> length (Sx_arr st)"

section \<open>Aggregation: the kernels\<close>

text \<open>
  The state of \<open>standard_aggregation\<close> and \<open>naive_aggregation\<close> is the labelling \<open>x\<close>, the
  root list \<open>y\<close> and the counter \<open>next_aggregate\<close>. The counter is never negative and is a
  \<open>nat\<close>; it is converted where the source stores it in \<open>x\<close>.
\<close>

type_synonym agg_state = "int list \<times> nat list \<times> nat"

text \<open>\<open>std::fill(x, x + n_row, 0)\<close> (lines 123 and 246).\<close>

definition fill_zero :: "nat \<Rightarrow> int list \<Rightarrow> int list" where
  "fill_zero n_row x = fold (\<lambda>i x. x[i := 0]) [0..<n_row] x"

text \<open>
  Lines 135-146: the scan of row \<open>i\<close> in Pass 1, over the positions still to visit. The
  pair is \<open>(has_aggregated_neighbors, has_neighbors)\<close>; the \<open>break\<close> ends the recursion.
\<close>

fun scan_neighbors :: "nat list \<Rightarrow> int list \<Rightarrow> nat \<Rightarrow> nat list \<Rightarrow> bool \<times> bool \<Rightarrow> bool \<times> bool" where
  "scan_neighbors Aj x i [] (has_aggregated_neighbors, has_neighbors) =
     (has_aggregated_neighbors, has_neighbors)"
| "scan_neighbors Aj x i (jj # jjs) (has_aggregated_neighbors, has_neighbors) =
     (let j = Aj ! jj in
      if i \<noteq> j then
        (if x ! j \<noteq> 0 then (True, True)
         else scan_neighbors Aj x i jjs (has_aggregated_neighbors, True))
      else scan_neighbors Aj x i jjs (has_aggregated_neighbors, has_neighbors))"

text \<open>Lines 128-161: the body of Pass 1 for node \<open>i\<close>.\<close>

definition pass1_step :: "nat \<Rightarrow> nat list \<Rightarrow> nat list \<Rightarrow> nat \<Rightarrow> agg_state \<Rightarrow> agg_state" where
  "pass1_step n_row Ap Aj i s =
     (case s of (x, y, next_aggregate) \<Rightarrow>
      if x ! i \<noteq> 0 then s
      else
        let row_start = Ap ! i; row_end = Ap ! (i + 1);
            (has_aggregated_neighbors, has_neighbors) =
               scan_neighbors Aj x i [row_start..<row_end] (False, False)
        in if \<not> has_neighbors then (x[i := - int n_row], y, next_aggregate)
           else if \<not> has_aggregated_neighbors then
             (fold (\<lambda>jj x. x[Aj ! jj := int next_aggregate]) [row_start..<row_end]
                (x[i := int next_aggregate]),
              y[next_aggregate - 1 := i],
              next_aggregate + 1)
           else s)"

text \<open>Lines 168-176: the scan of row \<open>i\<close> in Pass 2; it stops at the first positive label.\<close>

fun attach :: "nat list \<Rightarrow> nat \<Rightarrow> nat list \<Rightarrow> int list \<Rightarrow> int list" where
  "attach Aj i [] x = x"
| "attach Aj i (jj # jjs) x =
     (let j = Aj ! jj; xj = x ! j in
      if xj > 0 then x[i := - xj] else attach Aj i jjs x)"

text \<open>Lines 165-177: the body of Pass 2 for node \<open>i\<close>.\<close>

definition pass2_step :: "nat list \<Rightarrow> nat list \<Rightarrow> nat \<Rightarrow> int list \<Rightarrow> int list" where
  "pass2_step Ap Aj i x = (if x ! i \<noteq> 0 then x else attach Aj i [Ap ! i..<Ap ! (i + 1)] x)"

text \<open>Lines 182-211: the body of Pass 3 for node \<open>i\<close>.\<close>

definition pass3_step :: "nat \<Rightarrow> nat list \<Rightarrow> nat list \<Rightarrow> nat \<Rightarrow> agg_state \<Rightarrow> agg_state" where
  "pass3_step n_row Ap Aj i s =
     (case s of (x, y, next_aggregate) \<Rightarrow>
      let xi = x ! i in
      if xi \<noteq> 0 then
        (if xi > 0 then (x[i := xi - 1], y, next_aggregate)
         else if xi = - int n_row then (x[i := - 1], y, next_aggregate)
         else (x[i := - xi - 1], y, next_aggregate))
      else
        let row_start = Ap ! i; row_end = Ap ! (i + 1) in
        (fold (\<lambda>jj x. let j = Aj ! jj in if x ! j = 0 then x[j := int next_aggregate] else x)
           [row_start..<row_end] (x[i := int next_aggregate]),
         y[next_aggregate := i],
         next_aggregate + 1))"

text \<open>
  \<open>standard_aggregation\<close> (lines 115-215). The arrays \<open>x\<close> and \<open>y\<close> of the caller come in
  as \<open>x0\<close> and \<open>y0\<close>; the result is the returned count with the final \<open>x\<close> and \<open>y\<close>.
\<close>

definition standard_aggregation ::
  "nat \<Rightarrow> nat list \<Rightarrow> nat list \<Rightarrow> int list \<Rightarrow> nat list \<Rightarrow> nat \<times> int list \<times> nat list" where
  "standard_aggregation n_row Ap Aj x0 y0 =
     (let x = fill_zero n_row x0;
          (x1, y1, next1) = fold (pass1_step n_row Ap Aj) [0..<n_row] (x, y0, 1);
          x2 = fold (pass2_step Ap Aj) [0..<n_row] x1;
          next2 = next1 - 1;
          (x3, y3, next3) = fold (pass3_step n_row Ap Aj) [0..<n_row] (x2, y1, next2)
      in (next3, x3, y3))"

text \<open>Lines 250-268: the body of the loop of \<open>naive_aggregation\<close> for node \<open>i\<close>.\<close>

definition naive_step :: "nat list \<Rightarrow> nat list \<Rightarrow> nat \<Rightarrow> agg_state \<Rightarrow> agg_state" where
  "naive_step Ap Aj i s =
     (case s of (x, y, next_aggregate) \<Rightarrow>
      if x ! i \<noteq> 0 then s
      else
        let row_start = Ap ! i; row_end = Ap ! (i + 1) in
        (fold (\<lambda>jj x. if x ! (Aj ! jj) = 0 then x[Aj ! jj := int next_aggregate] else x)
           [row_start..<row_end] (x[i := int next_aggregate]),
         y[next_aggregate - 1 := i],
         next_aggregate + 1))"

text \<open>\<open>naive_aggregation\<close> (lines 238-271).\<close>

definition naive_aggregation ::
  "nat \<Rightarrow> nat list \<Rightarrow> nat list \<Rightarrow> int list \<Rightarrow> nat list \<Rightarrow> nat \<times> int list \<times> nat list" where
  "naive_aggregation n_row Ap Aj x0 y0 =
     (let x = fill_zero n_row x0;
          (x1, y1, next1) = fold (naive_step Ap Aj) [0..<n_row] (x, y0, 1)
      in (next1 - 1, x1, y1))"

subsection \<open>Vocabulary of the aggregation properties\<close>

text \<open>The column indices stored in row \<open>i\<close> of the graph.\<close>

definition cols :: "nat list \<Rightarrow> nat list \<Rightarrow> nat \<Rightarrow> nat list" where
  "cols Ap Aj i = map (\<lambda>jj. Aj ! jj) [Ap ! i..<Ap ! (i + 1)]"

text \<open>An isolated node: its row stores no off-diagonal entry.\<close>

definition isolated :: "nat list \<Rightarrow> nat list \<Rightarrow> nat \<Rightarrow> bool" where
  "isolated Ap Aj i \<longleftrightarrow> (\<forall>j\<in>set (cols Ap Aj i). j = i)"

text \<open>
  A symmetric graph, the input the header of \<open>standard_aggregation\<close> assumes: whenever row
  \<open>i\<close> stores column \<open>j\<close>, row \<open>j\<close> stores column \<open>i\<close>.
\<close>

definition graph_symmetric :: "nat \<Rightarrow> nat list \<Rightarrow> nat list \<Rightarrow> bool" where
  "graph_symmetric n_row Ap Aj \<longleftrightarrow>
     (\<forall>i\<in>{0..<n_row}. \<forall>j\<in>set (cols Ap Aj i). i \<in> set (cols Ap Aj j))"

text \<open>The loop invariants of the three passes on a symmetric graph, after \<open>k\<close> nodes.\<close>

definition pass1_inv :: "nat \<Rightarrow> nat list \<Rightarrow> nat list \<Rightarrow> nat \<Rightarrow> agg_state \<Rightarrow> bool" where
  "pass1_inv n Ap Aj k s \<longleftrightarrow>
     (case s of (x, y, nx) \<Rightarrow>
        length x = n \<and> length y = n \<and> 1 \<le> nx \<and> nx \<le> max n 1 \<and>
        (\<forall>v<n. x ! v = - int n \<or> (0 \<le> x ! v \<and> x ! v < int nx)) \<and>
        (\<forall>v<n. x ! v = - int n \<longleftrightarrow> isolated Ap Aj v \<and> v < k) \<and>
        (\<forall>v<n. 0 < x ! v \<longrightarrow> \<not> isolated Ap Aj v) \<and>
        (\<forall>b. b + 1 < nx \<longrightarrow> y ! b < n \<and> x ! (y ! b) = int b + 1) \<and>
        (\<forall>v<k. x ! v = 0 \<longrightarrow> (\<exists>j\<in>set (cols Ap Aj v). j \<noteq> v \<and> 0 < x ! j)))"

definition pass2_inv :: "nat \<Rightarrow> nat list \<Rightarrow> nat list \<Rightarrow> nat list \<Rightarrow> nat \<Rightarrow> nat \<Rightarrow> int list \<Rightarrow> bool" where
  "pass2_inv n Ap Aj y nx k x \<longleftrightarrow>
     length x = n \<and> 1 \<le> nx \<and> nx \<le> max n 1 \<and>
     (\<forall>v<n. x ! v = - int n \<or> (- int nx < x ! v \<and> x ! v < int nx)) \<and>
     (\<forall>v<n. x ! v = - int n \<longleftrightarrow> isolated Ap Aj v) \<and>
     (\<forall>b. b + 1 < nx \<longrightarrow> y ! b < n \<and> x ! (y ! b) = int b + 1) \<and>
     (\<forall>v<n. x ! v = 0 \<longrightarrow> k \<le> v \<and> (\<exists>j\<in>set (cols Ap Aj v). 0 < x ! j))"

definition pass3_inv :: "nat \<Rightarrow> nat list \<Rightarrow> nat list \<Rightarrow> nat list \<Rightarrow> nat \<Rightarrow> nat \<Rightarrow> int list \<Rightarrow> bool" where
  "pass3_inv n Ap Aj y nx k x \<longleftrightarrow>
     length x = n \<and> 1 \<le> nx \<and>
     (\<forall>v<n. k \<le> v \<longrightarrow> x ! v \<noteq> 0 \<and> (x ! v = - int n \<longleftrightarrow> isolated Ap Aj v) \<and>
                       (x ! v = - int n \<or> (- int nx < x ! v \<and> x ! v < int nx))) \<and>
     (\<forall>v<n. v < k \<longrightarrow> - 1 \<le> x ! v \<and> x ! v < int nx - 1 \<and> (x ! v = - 1 \<longleftrightarrow> isolated Ap Aj v)) \<and>
     (\<forall>b. b + 1 < nx \<longrightarrow> y ! b < n \<and> x ! (y ! b) = (if y ! b < k then int b else int b + 1))"

text \<open>The loop invariant of \<open>naive_aggregation\<close> after \<open>k\<close> nodes.\<close>

definition naive_inv :: "nat \<Rightarrow> nat \<Rightarrow> agg_state \<Rightarrow> bool" where
  "naive_inv n k s \<longleftrightarrow>
     (case s of (x, y, nx) \<Rightarrow>
        length x = n \<and> length y = n \<and> 1 \<le> nx \<and> nx \<le> k + 1 \<and>
        (\<forall>v<n. 0 \<le> x ! v \<and> x ! v < int nx) \<and>
        (\<forall>v<k. x ! v \<noteq> 0) \<and>
        (\<forall>b. b + 1 < nx \<longrightarrow> y ! b < n \<and> x ! (y ! b) = int b + 1))"

section \<open>Incomplete block matrix product: the kernel\<close>

text \<open>
  \<open>incomplete_mat_mult_bsr\<close> (lines 728-792). The value arrays are modelled as lists of
  blocks: block \<open>jj\<close> of \<open>Ax\<close> is the slice of the flat array that starts at
  \<open>jj * A_blocksize\<close>, and likewise for \<open>Bx\<close> and \<open>Sx\<close>. The lookup table \<open>S\<close> of block
  pointers holds \<open>None\<close> for \<open>NULL\<close> and \<open>Some jj\<close> for the address of block \<open>jj\<close> of \<open>Sx\<close>.
  Both branches of line 771 add the product of block \<open>jj\<close> of \<open>A\<close> and block \<open>kk\<close> of \<open>B\<close> to
  the output block: the scalar statement for 1 by 1 blocks and \<open>gemm\<close> in accumulate mode
  otherwise. \<open>gemm\<close> is declared in \<open>linalg.h\<close>; the block product is the parameter \<open>mul\<close>
  (the scalar product for 1 by 1 blocks). The addition \<open>+\<close> is that of the block type (of
  the scalar type for 1 by 1 blocks); the model assumes no law of it, so it may round.
\<close>

text \<open>Lines 753-754: point the lookup table at the blocks of row \<open>i\<close> of \<open>S\<close>.\<close>

definition set_lookup :: "nat list \<Rightarrow> nat list \<Rightarrow> nat \<Rightarrow> nat option list \<Rightarrow> nat option list" where
  "set_lookup Sp Sj i S = fold (\<lambda>jj S. S[Sj ! jj := Some jj]) [Sp ! i..<Sp ! (i + 1)] S"

text \<open>Lines 788-789: revert the lookup table to all \<open>NULL\<close>.\<close>

definition clear_lookup :: "nat list \<Rightarrow> nat list \<Rightarrow> nat \<Rightarrow> nat option list \<Rightarrow> nat option list" where
  "clear_lookup Sp Sj i S = fold (\<lambda>jj S. S[Sj ! jj := None]) [Sp ! i..<Sp ! (i + 1)] S"

text \<open>Lines 766-781: the body of the innermost loop, for the pair of positions \<open>(jj, kk)\<close>.\<close>

definition accumulate ::
  "('a \<Rightarrow> 'b \<Rightarrow> 'c::plus) \<Rightarrow> 'a list \<Rightarrow> nat list \<Rightarrow> 'b list \<Rightarrow> nat option list \<Rightarrow> nat \<Rightarrow> nat \<Rightarrow>
   'c list \<Rightarrow> 'c list" where
  "accumulate mul Ax Bj Bx S jj kk Sx =
     (let k = Bj ! kk in
      case S ! k of
        None \<Rightarrow> Sx
      | Some Sk \<Rightarrow> Sx[Sk := Sx ! Sk + mul (Ax ! jj) (Bx ! kk)])"

text \<open>Lines 759-783: the loops over row \<open>i\<close> of \<open>A\<close> and the rows of \<open>B\<close> it selects.\<close>

definition multiply_row ::
  "('a \<Rightarrow> 'b \<Rightarrow> 'c::plus) \<Rightarrow> nat list \<Rightarrow> nat list \<Rightarrow> 'a list \<Rightarrow> nat list \<Rightarrow> nat list \<Rightarrow> 'b list \<Rightarrow>
   nat option list \<Rightarrow> nat \<Rightarrow> 'c list \<Rightarrow> 'c list" where
  "multiply_row mul Ap Aj Ax Bp Bj Bx S i Sx =
     fold (\<lambda>jj Sx.
             let j = Aj ! jj in
             fold (accumulate mul Ax Bj Bx S jj) [Bp ! j..<Bp ! (j + 1)] Sx)
          [Ap ! i..<Ap ! (i + 1)] Sx"

text \<open>Lines 747-791: one iteration of the loop over the block rows.\<close>

definition mat_mult_row ::
  "('a \<Rightarrow> 'b \<Rightarrow> 'c::plus) \<Rightarrow> nat list \<Rightarrow> nat list \<Rightarrow> 'a list \<Rightarrow> nat list \<Rightarrow> nat list \<Rightarrow> 'b list \<Rightarrow>
   nat list \<Rightarrow> nat list \<Rightarrow> nat \<Rightarrow> nat option list \<times> 'c list \<Rightarrow> nat option list \<times> 'c list" where
  "mat_mult_row mul Ap Aj Ax Bp Bj Bx Sp Sj i st =
     (case st of (S, Sx) \<Rightarrow>
      let S1 = set_lookup Sp Sj i S;
          Sx1 = multiply_row mul Ap Aj Ax Bp Bj Bx S1 i Sx;
          S2 = clear_lookup Sp Sj i S1
      in (S2, Sx1))"

text \<open>The kernel: the final contents of \<open>Sx\<close>.\<close>

definition incomplete_mat_mult_bsr ::
  "('a \<Rightarrow> 'b \<Rightarrow> 'c::plus) \<Rightarrow> nat list \<Rightarrow> nat list \<Rightarrow> 'a list \<Rightarrow> nat list \<Rightarrow> nat list \<Rightarrow> 'b list \<Rightarrow>
   nat list \<Rightarrow> nat list \<Rightarrow> 'c list \<Rightarrow> nat \<Rightarrow> nat \<Rightarrow> 'c list" where
  "incomplete_mat_mult_bsr mul Ap Aj Ax Bp Bj Bx Sp Sj Sx n_brow n_bcol =
     snd (fold (mat_mult_row mul Ap Aj Ax Bp Bj Bx Sp Sj) [0..<n_brow]
            (replicate n_bcol None, Sx))"

subsection \<open>Vocabulary of the product properties\<close>

text \<open>
  The products \<open>A[i,k] * B[k,c]\<close> over all pairs of a stored position \<open>jj\<close> of row \<open>i\<close> of \<open>A\<close>
  and a stored position \<open>kk\<close> of row \<open>k = Aj[jj]\<close> of \<open>B\<close> with column \<open>c\<close>, in loop order.
\<close>

definition products ::
  "('a \<Rightarrow> 'b \<Rightarrow> 'c) \<Rightarrow> nat list \<Rightarrow> nat list \<Rightarrow> 'a list \<Rightarrow> nat list \<Rightarrow> nat list \<Rightarrow> 'b list \<Rightarrow>
   nat \<Rightarrow> nat \<Rightarrow> 'c list" where
  "products mul Ap Aj Ax Bp Bj Bx i c =
     concat (map (\<lambda>jj. map (\<lambda>kk. mul (Ax ! jj) (Bx ! kk))
                          (filter (\<lambda>kk. Bj ! kk = c) [Bp ! (Aj ! jj)..<Bp ! (Aj ! jj + 1)]))
                 [Ap ! i..<Ap ! (i + 1)])"

text \<open>
  Position \<open>p\<close> is the last stored position of its column in row \<open>i\<close> of \<open>S\<close>. In a row that
  stores no column twice every position is.
\<close>

definition last_of_column :: "nat list \<Rightarrow> nat list \<Rightarrow> nat \<Rightarrow> nat \<Rightarrow> bool" where
  "last_of_column Sp Sj i p \<longleftrightarrow> (\<forall>q\<in>{p + 1..<Sp ! (i + 1)}. Sj ! q \<noteq> Sj ! p)"

text \<open>
  The lookup table \<open>S\<close> while the positions \<open>a, ..., b - 1\<close> of \<open>Sj\<close> are installed: a column
  that is stored points to its last position, every other column is \<open>NULL\<close>.
\<close>

definition lookup_ok :: "nat list \<Rightarrow> nat \<Rightarrow> nat \<Rightarrow> nat option list \<Rightarrow> bool" where
  "lookup_ok Sj a b S \<longleftrightarrow>
     (\<forall>c<length S. case S ! c of
         None \<Rightarrow> (\<forall>p\<in>{a..<b}. Sj ! p \<noteq> c)
       | Some p \<Rightarrow> p \<in> {a..<b} \<and> Sj ! p = c \<and> (\<forall>q\<in>{p + 1..<b}. Sj ! q \<noteq> c))"

text \<open>
  The block at position \<open>p\<close> of row \<open>i\<close> after the row is processed, from its prior value
  \<open>s\<close>: the products of its column are added to it one after the other, in loop order.
  The addition is that of the block type and obeys no law in the model.
\<close>

definition accumulated ::
  "('a \<Rightarrow> 'b \<Rightarrow> 'c::plus) \<Rightarrow> nat list \<Rightarrow> nat list \<Rightarrow> 'a list \<Rightarrow> nat list \<Rightarrow> nat list \<Rightarrow> 'b list \<Rightarrow>
   nat list \<Rightarrow> nat list \<Rightarrow> nat \<Rightarrow> nat \<Rightarrow> 'c \<Rightarrow> 'c" where
  "accumulated mul Ap Aj Ax Bp Bj Bx Sp Sj i p s =
     (if last_of_column Sp Sj i p then foldl (+) s (products mul Ap Aj Ax Bp Bj Bx i (Sj ! p)) else s)"

section \<open>Tentative prolongator: the kernel\<close>

text \<open>
  \<open>fit_candidates_common\<close> (lines 316-440) for real scalars: the value type \<open>T\<close> and the norm
  type \<open>S\<close> are both modelled as \<open>real\<close>. Rounding is not modelled: the model computes what the
  source computes on floating-point inputs at which no operation of the run rounds. A
  value outside the real numbers (an infinite quotient, NaN) is the result \<open>None\<close>. A
  pointer into \<open>Ax\<close> or \<open>R\<close> is the index it points at. The helpers \<open>mynorm\<close> and \<open>dot\<close> of
  \<open>linalg.h\<close> are the parameters \<open>nrm\<close> and \<open>dot\<close>. Every strided \<open>while\<close> loop runs inside the loop
  \<open>for (bj = 0; bj < K2; bj++)\<close>, where \<open>K2 > 0\<close>; the guard \<open>0 < K2\<close> of the loop functions
  records this and gives their termination.
\<close>

text \<open>Lines 361-364 and 405-408: the sum under the square root, from position \<open>Ax_col\<close> on.\<close>

function col_norm_sum :: "(real \<Rightarrow> real) \<Rightarrow> real list \<Rightarrow> nat \<Rightarrow> nat \<Rightarrow> nat \<Rightarrow> real \<Rightarrow> real" where
  "col_norm_sum nrm Ax Ax_col Ax_end K2 norm_j =
     (if Ax_col < Ax_end \<and> 0 < K2
      then col_norm_sum nrm Ax (Ax_col + K2) Ax_end K2 (norm_j + nrm (Ax ! Ax_col))
      else norm_j)"
  by pat_completeness auto
termination
  by (relation "measure (\<lambda>(nrm, Ax, Ax_col, Ax_end, K2, norm_j). Ax_end - Ax_col)") auto

text \<open>Lines 379-383: the dot product of column \<open>bj\<close> with column \<open>bi\<close>.\<close>

function col_dot ::
  "(real \<Rightarrow> real \<Rightarrow> real) \<Rightarrow> real list \<Rightarrow> nat \<Rightarrow> nat \<Rightarrow> nat \<Rightarrow> nat \<Rightarrow> real \<Rightarrow> real" where
  "col_dot dot Ax Ax_bi Ax_bj Ax_end K2 dot_prod =
     (if Ax_bi < Ax_end \<and> 0 < K2
      then col_dot dot Ax (Ax_bi + K2) (Ax_bj + K2) Ax_end K2
             (dot_prod + dot (Ax ! Ax_bj) (Ax ! Ax_bi))
      else dot_prod)"
  by pat_completeness auto
termination
  by (relation "measure (\<lambda>(dot, Ax, Ax_bi, Ax_bj, Ax_end, K2, dot_prod). Ax_end - Ax_bi)") auto

text \<open>Lines 390-394: subtract \<open>dot_prod\<close> times column \<open>bi\<close> from column \<open>bj\<close>.\<close>

function col_sub :: "real list \<Rightarrow> nat \<Rightarrow> nat \<Rightarrow> nat \<Rightarrow> nat \<Rightarrow> real \<Rightarrow> real list" where
  "col_sub Ax Ax_bi Ax_bj Ax_end K2 dot_prod =
     (if Ax_bi < Ax_end \<and> 0 < K2
      then col_sub (Ax[Ax_bj := Ax ! Ax_bj - dot_prod * Ax ! Ax_bi]) (Ax_bi + K2) (Ax_bj + K2)
             Ax_end K2 dot_prod
      else Ax)"
  by pat_completeness auto
termination
  by (relation "measure (\<lambda>(Ax, Ax_bi, Ax_bj, Ax_end, K2, dot_prod). Ax_end - Ax_bi)") auto

text \<open>Lines 432-435: multiply column \<open>bj\<close> by \<open>scale\<close>.\<close>

function col_scale :: "real list \<Rightarrow> nat \<Rightarrow> nat \<Rightarrow> nat \<Rightarrow> real \<Rightarrow> real list" where
  "col_scale Ax Ax_bj Ax_end K2 scale =
     (if Ax_bj < Ax_end \<and> 0 < K2
      then col_scale (Ax[Ax_bj := Ax ! Ax_bj * scale]) (Ax_bj + K2) Ax_end K2 scale
      else Ax)"
  by pat_completeness auto
termination
  by (relation "measure (\<lambda>(Ax, Ax_bj, Ax_end, K2, scale). Ax_end - Ax_bj)") auto

text \<open>The loop equations are unfolded by hand, one iteration at a time.\<close>

declare col_norm_sum.simps [simp del] col_dot.simps [simp del] col_sub.simps [simp del]
  col_scale.simps [simp del]

text \<open>
  Lines 357-366 and 402-410: the norm \<open>norm_j\<close> of column \<open>bj\<close> as the kernel computes it. The
  square root of a negative sum is not a real number (the source gets NaN); the model then
  gives no value.
\<close>

definition column_norm ::
  "(real \<Rightarrow> real) \<Rightarrow> real list \<Rightarrow> nat \<Rightarrow> nat \<Rightarrow> nat \<Rightarrow> nat \<Rightarrow> real option" where
  "column_norm nrm Ax Ax_start Ax_end K2 bj =
     (let norm_j = col_norm_sum nrm Ax (Ax_start + bj) Ax_end K2 0
      in if norm_j < 0 then None else Some (sqrt norm_j))"

text \<open>Lines 371-398: the body of the loop over \<open>bi\<close>.\<close>

definition orth_step ::
  "(real \<Rightarrow> real \<Rightarrow> real) \<Rightarrow> nat \<Rightarrow> nat \<Rightarrow> nat \<Rightarrow> nat \<Rightarrow> nat \<Rightarrow> nat \<Rightarrow> real list \<times> real list \<Rightarrow>
   real list \<times> real list" where
  "orth_step dot K2 Ax_start Ax_end R_start bj bi st =
     (case st of (Ax, R) \<Rightarrow>
      let dot_prod = col_dot dot Ax (Ax_start + bi) (Ax_start + bj) Ax_end K2 0;
          Ax' = col_sub Ax (Ax_start + bi) (Ax_start + bj) Ax_end K2 dot_prod
      in (Ax', R[R_start + K2 * bi + bj := dot_prod]))"

text \<open>Lines 371-398: column \<open>bj\<close> orthogonalized against the columns before it.\<close>

definition orthogonalize ::
  "(real \<Rightarrow> real \<Rightarrow> real) \<Rightarrow> nat \<Rightarrow> nat \<Rightarrow> nat \<Rightarrow> nat \<Rightarrow> nat \<Rightarrow> real list \<times> real list \<Rightarrow>
   real list \<times> real list" where
  "orthogonalize dot K2 Ax_start Ax_end R_start bj st =
     fold (orth_step dot K2 Ax_start Ax_end R_start bj) [0..<bj] st"

text \<open>
  Lines 355-438: the body of the loop over \<open>bj\<close>. At line 418 the source divides by
  \<open>norm_j\<close>; when \<open>norm_j\<close> is zero there (possible only with a negative threshold) the quotient
  is infinite and the column becomes NaN, so the model gives no value, as it does when
  one of the two norms is not a real number.
\<close>

definition fit_column ::
  "(real \<Rightarrow> real) \<Rightarrow> (real \<Rightarrow> real \<Rightarrow> real) \<Rightarrow> real \<Rightarrow> nat \<Rightarrow> nat \<Rightarrow> nat \<Rightarrow> nat \<Rightarrow> nat \<Rightarrow>
   real list \<times> real list \<Rightarrow> (real list \<times> real list) option" where
  "fit_column nrm dot tol K2 Ax_start Ax_end R_start bj st =
     (case column_norm nrm (fst st) Ax_start Ax_end K2 bj of
        None \<Rightarrow> None
      | Some norm_pre \<Rightarrow>
          let threshold_j = tol * norm_pre;
              (Ax1, R1) = orthogonalize dot K2 Ax_start Ax_end R_start bj st
          in (case column_norm nrm Ax1 Ax_start Ax_end K2 bj of
                None \<Rightarrow> None
              | Some norm_j \<Rightarrow>
                  if norm_j > threshold_j
                  then (if norm_j = 0 then None
                        else Some (col_scale Ax1 (Ax_start + bj) Ax_end K2 (1 / norm_j),
                                   R1[R_start + K2 * bj + bj := norm_j]))
                  else Some (col_scale Ax1 (Ax_start + bj) Ax_end K2 0,
                             R1[R_start + K2 * bj + bj := 0])))"

text \<open>
  Lines 347-439: the body of the loop over the aggregates. Once a value outside the real
  numbers has appeared the model gives no result for the rest of the run.
\<close>

definition fit_aggregate ::
  "(real \<Rightarrow> real) \<Rightarrow> (real \<Rightarrow> real \<Rightarrow> real) \<Rightarrow> real \<Rightarrow> nat \<Rightarrow> nat \<Rightarrow> nat list \<Rightarrow> nat \<Rightarrow>
   (real list \<times> real list) option \<Rightarrow> (real list \<times> real list) option" where
  "fit_aggregate nrm dot tol K1 K2 Ap j st =
     (let BS = K1 * K2; col_start = Ap ! j; col_end = Ap ! (j + 1);
          Ax_start = BS * col_start; Ax_end = BS * col_end; R_start = j * K2 * K2
      in fold (\<lambda>bj st. Option.bind st (fit_column nrm dot tol K2 Ax_start Ax_end R_start bj))
           [0..<K2] st)"

text \<open>Lines 338-341: copy one block of \<open>B\<close> to \<open>Ax_start\<close> and advance \<open>Ax_start\<close>.\<close>

definition copy_block :: "nat \<Rightarrow> nat list \<Rightarrow> real list \<Rightarrow> nat \<Rightarrow> real list \<times> nat \<Rightarrow> real list \<times> nat" where
  "copy_block BS Ai B ii st =
     (case st of (Ax, Ax_start) \<Rightarrow>
      let B_start = BS * Ai ! ii in
      (fold (\<lambda>t Ax. Ax[Ax_start + t := B ! (B_start + t)]) [0..<BS] Ax, Ax_start + BS))"

text \<open>Lines 334-343: copy the blocks of the members of every aggregate into \<open>Ax\<close>.\<close>

definition copy_blocks :: "nat \<Rightarrow> nat \<Rightarrow> nat list \<Rightarrow> nat list \<Rightarrow> real list \<Rightarrow> real list \<Rightarrow> real list" where
  "copy_blocks n_col BS Ap Ai B Ax =
     fold (\<lambda>j Ax. fst (fold (copy_block BS Ai B) [Ap ! j..<Ap ! (j + 1)] (Ax, BS * Ap ! j)))
          [0..<n_col] Ax"

text \<open>
  The kernel: the final contents of \<open>Ax\<close> and \<open>R\<close>, or \<open>None\<close> when the run leaves the real
  numbers.
\<close>

definition fit_candidates_common ::
  "(real \<Rightarrow> real) \<Rightarrow> (real \<Rightarrow> real \<Rightarrow> real) \<Rightarrow> nat \<Rightarrow> nat \<Rightarrow> nat \<Rightarrow> nat \<Rightarrow> nat list \<Rightarrow> nat list \<Rightarrow>
   real list \<Rightarrow> real list \<Rightarrow> real list \<Rightarrow> real \<Rightarrow> (real list \<times> real list) option" where
  "fit_candidates_common nrm dot n_row n_col K1 K2 Ap Ai Ax B R tol =
     (let R0 = fold (\<lambda>i R. R[i := 0]) [0..<n_col * K2 * K2] R;
          BS = K1 * K2;
          Ax0 = copy_blocks n_col BS Ap Ai B Ax
      in fold (fit_aggregate nrm dot tol K1 K2 Ap) [0..<n_col] (Some (Ax0, R0)))"

text \<open>
  Modelled from the spec: \<open>dot\<close> of \<open>linalg.h\<close>, which is not among the sources. For real
  scalars the spec gives the ordinary product.
\<close>

definition dot_real :: "real \<Rightarrow> real \<Rightarrow> real" where
  "dot_real a b = a * b"

subsection \<open>Vocabulary of the fit properties\<close>

text \<open>
  Column \<open>bj\<close> of the block of \<open>Ax\<close> that belongs to an aggregate, one entry per row of the
  block, and the Euclidean norm of a vector.
\<close>

definition block_column :: "real list \<Rightarrow> nat \<Rightarrow> nat \<Rightarrow> nat \<Rightarrow> nat \<Rightarrow> real list" where
  "block_column Ax Ax_start Ax_end K2 bj =
     map (\<lambda>m. Ax ! (Ax_start + m * K2 + bj)) [0..<(Ax_end - Ax_start) div K2]"

definition euclidean_norm :: "real list \<Rightarrow> real" where
  "euclidean_norm v = sqrt (sum_list (map (\<lambda>a. a * a) v))"

section \<open>Constraint correction: the kernel\<close>

text \<open>
  \<open>satisfy_constraints_helper\<close> (lines 497-542). The arrays are flat, as in the source, and
  hold numbers: elements of a commutative ring such as the rationals, the reals or the
  complex numbers. The arithmetic the kernel performs on them is a parameter of the model,
  so that it may round: \<open>sub\<close> is the subtraction of line 539, \<open>gemmC\<close> the call of \<open>gemm\<close> at
  line 531 and \<open>gemmU\<close> the call at line 535. \<open>gemm\<close> is declared in \<open>linalg.h\<close>, which is not
  among the sources; both calls overwrite their output, so each is a function from its
  operand blocks to a fresh output block.
\<close>

type_synonym 'a gemm = "nat \<Rightarrow> nat \<Rightarrow> nat \<Rightarrow> 'a list \<Rightarrow> nat \<Rightarrow> 'a list \<Rightarrow> nat \<Rightarrow> 'a list"

text \<open>Lines 529-539: the body of the inner loop, for block row \<open>i\<close> and stored position \<open>j\<close>.\<close>

definition correct_block ::
  "('a \<Rightarrow> 'a \<Rightarrow> 'a) \<Rightarrow> 'a gemm \<Rightarrow> 'a gemm \<Rightarrow> nat \<Rightarrow> nat \<Rightarrow> nat \<Rightarrow> 'a list \<Rightarrow> 'a list \<Rightarrow> 'a list \<Rightarrow>
   nat list \<Rightarrow> nat \<Rightarrow> nat \<Rightarrow> 'a list \<Rightarrow> 'a list" where
  "correct_block sub gemmC gemmU RowsPerBlock ColsPerBlock NullDim Bt UB BtBinv Sj i j Sx =
     (let BlockSize = RowsPerBlock * ColsPerBlock;
          NullDimSq = NullDim * NullDim;
          NullDim_Cols = NullDim * ColsPerBlock;
          NullDim_Rows = NullDim * RowsPerBlock;
          C = gemmC NullDim NullDim ColsPerBlock BtBinv (i * NullDimSq) Bt (Sj ! j * NullDim_Cols);
          Update = gemmU RowsPerBlock NullDim ColsPerBlock UB (i * NullDim_Rows) C 0
      in fold (\<lambda>k Sx. Sx[j * BlockSize + k := sub (Sx ! (j * BlockSize + k)) (Update ! k)])
           [0..<BlockSize] Sx)"

text \<open>Lines 522-541: one iteration of the main loop.\<close>

definition constraint_row ::
  "('a \<Rightarrow> 'a \<Rightarrow> 'a) \<Rightarrow> 'a gemm \<Rightarrow> 'a gemm \<Rightarrow> nat \<Rightarrow> nat \<Rightarrow> nat \<Rightarrow> 'a list \<Rightarrow> 'a list \<Rightarrow> 'a list \<Rightarrow>
   nat list \<Rightarrow> nat list \<Rightarrow> nat \<Rightarrow> 'a list \<Rightarrow> 'a list" where
  "constraint_row sub gemmC gemmU RowsPerBlock ColsPerBlock NullDim Bt UB BtBinv Sp Sj i Sx =
     (let rowstart = Sp ! i; rowend = Sp ! (i + 1) in
      fold (correct_block sub gemmC gemmU RowsPerBlock ColsPerBlock NullDim Bt UB BtBinv Sj i)
           [rowstart..<rowend] Sx)"

text \<open>The kernel: the final contents of \<open>Sx\<close>.\<close>

definition satisfy_constraints_helper ::
  "('a \<Rightarrow> 'a \<Rightarrow> 'a) \<Rightarrow> 'a gemm \<Rightarrow> 'a gemm \<Rightarrow> nat \<Rightarrow> nat \<Rightarrow> nat \<Rightarrow> nat \<Rightarrow> 'a list \<Rightarrow> 'a list \<Rightarrow> 'a list \<Rightarrow>
   nat list \<Rightarrow> nat list \<Rightarrow> 'a list \<Rightarrow> 'a list" where
  "satisfy_constraints_helper sub gemmC gemmU RowsPerBlock ColsPerBlock num_block_rows NullDim
     x y z Sp Sj Sx =
     (let Bt = x; UB = y; BtBinv = z in
      fold (constraint_row sub gemmC gemmU RowsPerBlock ColsPerBlock NullDim Bt UB BtBinv Sp Sj)
           [0..<num_block_rows] Sx)"

subsection \<open>Exact arithmetic\<close>

text \<open>
  Modelled from the spec: the two calls of \<open>gemm\<close> (declared in \<open>linalg.h\<close>, which is not
  among the sources) at lines 531 and 535, in exact arithmetic. The spec gives what they
  compute: first \<open>C = BtBinv[i] * B[j]\<^sup>H\<close>, a \<open>NullDim\<close> by \<open>ColsPerBlock\<close> matrix, then
  \<open>Update = UB[i] * C\<close>, a \<open>RowsPerBlock\<close> by \<open>ColsPerBlock\<close> matrix. Every operand is a
  row-major dense block that starts at the given offset of its array. The array \<open>x\<close> holds
  the conjugates of the candidates (header, line 473), so \<open>B[j]\<^sup>H\<close> is the transpose of block
  \<open>j\<close> of \<open>x\<close> and no conjugation is left to compute. \<open>gemm_ABt\<close> is the product of an \<open>m\<close> by \<open>n\<close>
  block with the transpose of a \<open>p\<close> by \<open>n\<close> block, \<open>gemm_AB\<close> the product of an \<open>m\<close> by \<open>n\<close> block
  with an \<open>n\<close> by \<open>p\<close> block; the result is a fresh row-major \<open>m\<close> by \<open>p\<close> block.
\<close>

definition gemm_ABt :: "'a::comm_ring_1 gemm" where
  "gemm_ABt m n p A offA B offB =
     map (\<lambda>e. \<Sum>k<n. A ! (offA + (e div p) * n + k) * B ! (offB + (e mod p) * n + k)) [0..<m * p]"

definition gemm_AB :: "'a::comm_ring_1 gemm" where
  "gemm_AB m n p A offA B offB =
     map (\<lambda>e. \<Sum>k<n. A ! (offA + (e div p) * n + k) * B ! (offB + k * p + (e mod p))) [0..<m * p]"

subsection \<open>Double-precision arithmetic\<close>

text \<open>
  The two calls of \<open>gemm\<close> in this arithmetic: every entry of the product is accumulated
  from zero, one rounded product after the other. With one term per entry, as in the
  example below, the order of accumulation plays no role.
\<close>

definition double_gemm_ABt :: "real gemm" where
  "double_gemm_ABt m n p A offA B offB =
     map (\<lambda>e. foldl (\<lambda>s k. double_add s
                 (double_mul (A ! (offA + (e div p) * n + k)) (B ! (offB + (e mod p) * n + k))))
               0 [0..<n]) [0..<m * p]"

definition double_gemm_AB :: "real gemm" where
  "double_gemm_AB m n p A offA B offB =
     map (\<lambda>e. foldl (\<lambda>s k. double_add s
                 (double_mul (A ! (offA + (e div p) * n + k)) (B ! (offB + k * p + (e mod p)))))
               0 [0..<n]) [0..<m * p]"

subsection \<open>Vocabulary of the constraint properties\<close>

text \<open>The block \<open>Update\<close> that lines 531 and 535 compute for block row \<open>i\<close> and position \<open>j\<close>.\<close>

definition update_block ::
  "'a gemm \<Rightarrow> 'a gemm \<Rightarrow> nat \<Rightarrow> nat \<Rightarrow> nat \<Rightarrow> 'a list \<Rightarrow> 'a list \<Rightarrow> 'a list \<Rightarrow> nat list \<Rightarrow> nat \<Rightarrow> nat \<Rightarrow>
   'a list" where
  "update_block gemmC gemmU RowsPerBlock ColsPerBlock NullDim Bt UB BtBinv Sj i j =
     gemmU RowsPerBlock NullDim ColsPerBlock UB (i * (NullDim * RowsPerBlock))
       (gemmC NullDim NullDim ColsPerBlock BtBinv (i * (NullDim * NullDim)) Bt
          (Sj ! j * (NullDim * ColsPerBlock))) 0"

text \<open>Entry \<open>(r, c)\<close> of the row-major \<open>m\<close> by \<open>n\<close> block number \<open>b\<close> of a flat array.\<close>

definition block_entry :: "nat \<Rightarrow> nat \<Rightarrow> 'a list \<Rightarrow> nat \<Rightarrow> nat \<Rightarrow> nat \<Rightarrow> 'a" where
  "block_entry m n A b r c = A ! (b * (m * n) + r * n + c)"

text \<open>
  Entry \<open>(r, c)\<close> of \<open>UB[i] * (BtBinv[i] * B[Sj[j]]\<^sup>H)\<close> in exact arithmetic, written with the
  entries of the blocks; \<open>Bt\<close> is the array \<open>x\<close> of the conjugates.
\<close>

definition update_entry ::
  "nat \<Rightarrow> nat \<Rightarrow> nat \<Rightarrow> 'a::comm_ring_1 list \<Rightarrow> 'a list \<Rightarrow> 'a list \<Rightarrow> nat list \<Rightarrow> nat \<Rightarrow> nat \<Rightarrow>
   nat \<Rightarrow> nat \<Rightarrow> 'a" where
  "update_entry RowsPerBlock ColsPerBlock NullDim Bt UB BtBinv Sj i j r c =
     (\<Sum>a<NullDim. block_entry RowsPerBlock NullDim UB i r a *
        (\<Sum>b<NullDim. block_entry NullDim NullDim BtBinv i a b *
                       block_entry ColsPerBlock NullDim Bt (Sj ! j) c b))"

text \<open>
  Entry \<open>(r, a)\<close> of block row \<open>i\<close> of the product \<open>S * B\<close>, summed over the stored positions of
  the row; \<open>B\<close> is the candidate array, \<open>ColsPerBlock\<close> by \<open>NullDim\<close> per block.
\<close>

definition SB_entry ::
  "nat \<Rightarrow> nat \<Rightarrow> nat \<Rightarrow> nat list \<Rightarrow> nat list \<Rightarrow> 'a::comm_ring_1 list \<Rightarrow> 'a list \<Rightarrow> nat \<Rightarrow> nat \<Rightarrow> nat \<Rightarrow> 'a" where
  "SB_entry RowsPerBlock ColsPerBlock NullDim Sp Sj Sx B i r a =
     (\<Sum>j\<leftarrow>[Sp ! i..<Sp ! (i + 1)]. \<Sum>c<ColsPerBlock.
        block_entry RowsPerBlock ColsPerBlock Sx j r c * block_entry ColsPerBlock NullDim B (Sj ! j) c a)"

text \<open>
  Entry \<open>(b, a)\<close> of the Gram matrix \<open>B\<^sub>i\<^sup>H * B\<^sub>i\<close> of the candidates restricted to the stored
  positions of block row \<open>i\<close> (what \<open>calc_BtB\<close> accumulates), from the array \<open>Bt\<close> of the
  conjugates and the array \<open>B\<close> of the candidates. For real scalars the two arrays are the
  same.
\<close>

definition gram_entry ::
  "nat \<Rightarrow> nat \<Rightarrow> nat list \<Rightarrow> nat list \<Rightarrow> 'a::comm_ring_1 list \<Rightarrow> 'a list \<Rightarrow> nat \<Rightarrow> nat \<Rightarrow> nat \<Rightarrow> 'a" where
  "gram_entry ColsPerBlock NullDim Sp Sj Bt B i b a =
     (\<Sum>j\<leftarrow>[Sp ! i..<Sp ! (i + 1)]. \<Sum>c<ColsPerBlock.
        block_entry ColsPerBlock NullDim Bt (Sj ! j) c b * block_entry ColsPerBlock NullDim B (Sj ! j) c a)"

section \<open>Double-precision arithmetic: evaluations\<close>

text \<open>
  The roundings that occur in the examples: the first six numbers are doubles and are
  left as they are, the others are rounded to a neighbour. The number
  \<open>3602879701896397 / 2\<^sup>5\<^sup>4\<close> is the double nearest to \<open>0.2\<close>.
\<close>

lemma round_double_examples:
  "round_double 1 = 1"
  "round_double 5 = 5"
  "round_double 10000000000000000 = 10000000000000000"
  "round_double (1 / 4) = 1 / 4"
  "round_double (3602879701896397 / 18014398509481984) = 3602879701896397 / 18014398509481984"
  "round_double (9007199254740991 / 4) = 9007199254740991 / 4"
  "round_double (- (9007199254740991 / 4)) = - (9007199254740991 / 4)"
  "round_double (18014398509481985 / 18014398509481984) = 1"
  "round_double 10000000000000001 = 10000000000000000"
  "round_double (27021597764222977 / 4) = 6755399441055744"
  "round_double (- (9007199254740995 / 4)) = - 2251799813685249"
proof -
  have e: "binary_exponent 1 = 0" "binary_exponent 5 = 2"
    "binary_exponent 10000000000000000 = 53" "binary_exponent (1 / 4) = - 2"
    "binary_exponent (3602879701896397 / 18014398509481984) = - 3"
    "binary_exponent (9007199254740991 / 4) = 50"
    "binary_exponent (- (9007199254740991 / 4)) = 50"
    "binary_exponent (18014398509481985 / 18014398509481984) = 0"
    "binary_exponent 10000000000000001 = 53"
    "binary_exponent (27021597764222977 / 4) = 52"
    "binary_exponent (- (9007199254740995 / 4)) = 51"
    by (simp_all add: binary_exponent_def bit_length.simps)
  show "round_double 1 = 1"
    by (simp add: round_double_def e pow2_def round_half_even_def Let_def)
  show "round_double 5 = 5"
    by (simp add: round_double_def e pow2_def round_half_even_def Let_def)
  show "round_double 10000000000000000 = 10000000000000000"
    by (simp add: round_double_def e pow2_def round_half_even_def Let_def)
  show "round_double (1 / 4) = 1 / 4"
    by (simp add: round_double_def e pow2_def round_half_even_def Let_def)
  show "round_double (3602879701896397 / 18014398509481984) = 3602879701896397 / 18014398509481984"
    by (simp add: round_double_def e pow2_def round_half_even_def Let_def)
  show "round_double (9007199254740991 / 4) = 9007199254740991 / 4"
    by (simp add: round_double_def e pow2_def round_half_even_def Let_def)
  show "round_double (- (9007199254740991 / 4)) = - (9007199254740991 / 4)"
    by (simp add: round_double_def e pow2_def round_half_even_def Let_def)
  show "round_double (18014398509481985 / 18014398509481984) = 1"
    by (simp add: round_double_def e pow2_def round_half_even_def Let_def)
  show "round_double 10000000000000001 = 10000000000000000"
    by (simp add: round_double_def e pow2_def round_half_even_def Let_def)
  show "round_double (27021597764222977 / 4) = 6755399441055744"
    by (simp add: round_double_def e pow2_def round_half_even_def Let_def)
  show "round_double (- (9007199254740995 / 4)) = - 2251799813685249"
    by (simp add: round_double_def e pow2_def round_half_even_def Let_def)
qed

section \<open>Strength of connection: proofs\<close>

lemma out_push_entry:
  assumes "nnz st < length (Sj_arr st)" "nnz st < length (Sx_arr st)"
  shows "out (push_entry j v st) = out st @ [(j, v)]"
  using assms by (simp add: out_def push_entry_def)

lemma push_entry_fields [simp]:
  "nnz (push_entry j v st) = nnz st + 1"
  "Sp_arr (push_entry j v st) = Sp_arr st"
  "length (Sj_arr (push_entry j v st)) = length (Sj_arr st)"
  "length (Sx_arr (push_entry j v st)) = length (Sx_arr st)"
  by (simp_all add: push_entry_def)

lemma fold_strength_entry:
  assumes "nnz st + length js \<le> length (Sj_arr st)" "nnz st + length js \<le> length (Sx_arr st)"
  shows "(let st' = fold (strength_entry nrmsq diags Aj Ax i eps) js st in
       out st' = out st @ filter (strong nrmsq diags i eps) (map (\<lambda>jj. (Aj ! jj, Ax ! jj)) js)
       \<and> nnz st' = nnz st + length (filter (strong nrmsq diags i eps) (map (\<lambda>jj. (Aj ! jj, Ax ! jj)) js))
       \<and> Sp_arr st' = Sp_arr st \<and> length (Sj_arr st') = length (Sj_arr st) \<and> length (Sx_arr st') = length (Sx_arr st))"
  using assms
proof (induction js arbitrary: st)
  case Nil
  then show ?case by simp
next
  case (Cons jj js)
  let ?s1 = "strength_entry nrmsq diags Aj Ax i eps jj st"
  show ?case
  proof (cases "strong nrmsq diags i eps (Aj ! jj, Ax ! jj)")
    case True
    then have s1: "?s1 = push_entry (Aj ! jj) (Ax ! jj) st"
      by (auto simp: strength_entry_def strong_def Let_def)
    have o1: "out ?s1 = out st @ [(Aj ! jj, Ax ! jj)]"
      unfolding s1 using Cons.prems by (intro out_push_entry) auto
    have "nnz ?s1 + length js \<le> length (Sj_arr ?s1)" "nnz ?s1 + length js \<le> length (Sx_arr ?s1)"
      unfolding s1 using Cons.prems by auto
    from Cons.IH[OF this] o1 True show ?thesis
      by (simp add: s1 Let_def)
  next
    case False
    then have s1: "?s1 = st"
      by (auto simp: strength_entry_def strong_def Let_def)
    have "nnz st + length js \<le> length (Sj_arr st)" "nnz st + length js \<le> length (Sx_arr st)"
      using Cons.prems by auto
    from Cons.IH[OF this] False show ?thesis
      by (simp add: s1 Let_def)
  qed
qed

lemma out_Sp_update [simp]: "out (st\<lparr>Sp_arr := p\<rparr>) = out st"
  by (simp add: out_def)

lemma strength_row_out:
  assumes "nnz st + (Ap ! (i + 1) - Ap ! i) \<le> length (Sj_arr st)"
          "nnz st + (Ap ! (i + 1) - Ap ! i) \<le> length (Sx_arr st)"
  shows "(let st' = strength_row nrmsq theta diags Ap Aj Ax i st;
              kept = filter (strong nrmsq diags i (theta * theta * diags ! i)) (csr_row Ap Aj Ax i) in
       out st' = out st @ kept \<and> nnz st' = nnz st + length kept
       \<and> Sp_arr st' = (Sp_arr st)[i + 1 := nnz st + length kept]
       \<and> length (Sj_arr st') = length (Sj_arr st) \<and> length (Sx_arr st') = length (Sx_arr st))"
proof -
  have "nnz st + length [Ap ! i..<Ap ! (i + 1)] \<le> length (Sj_arr st)"
       "nnz st + length [Ap ! i..<Ap ! (i + 1)] \<le> length (Sx_arr st)"
    using assms by simp_all
  from fold_strength_entry[OF this, of nrmsq diags Aj Ax i "theta * theta * diags ! i"]
  show ?thesis
    by (simp add: strength_row_def Let_def csr_row_def)
qed

lemma kept_upto_0 [simp]: "kept_upto keep Ap Aj Ax 0 = []"
  by (simp add: kept_upto_def)

lemma kept_upto_Suc:
  "kept_upto keep Ap Aj Ax (Suc k) = kept_upto keep Ap Aj Ax k @ filter (keep k) (csr_row Ap Aj Ax k)"
  by (simp add: kept_upto_def)

lemma length_csr_row [simp]: "length (csr_row Ap Aj Ax i) = Ap ! (i + 1) - Ap ! i"
  by (simp add: csr_row_def)

lemma length_kept_upto:
  assumes "\<forall>i<n. Ap ! i \<le> Ap ! (i + 1)" "k \<le> n"
  shows "length (kept_upto keep Ap Aj Ax k) + Ap ! 0 \<le> Ap ! k"
  using assms(2)
proof (induction k)
  case 0
  then show ?case by simp
next
  case (Suc k)
  have "length (filter (keep k) (csr_row Ap Aj Ax k)) \<le> Ap ! (k + 1) - Ap ! k"
    using length_filter_le[of "keep k" "csr_row Ap Aj Ax k"] by simp
  moreover have "Ap ! k \<le> Ap ! (k + 1)" using assms(1) Suc.prems by simp
  moreover have "length (kept_upto keep Ap Aj Ax k) + Ap ! 0 \<le> Ap ! k" using Suc by simp
  ultimately show ?case by (simp add: kept_upto_Suc)
qed

lemma row_pointer_mono:
  assumes "\<forall>i<n. (Ap :: nat list) ! i \<le> Ap ! (i + 1)" "b \<le> n" "a \<le> b"
  shows "Ap ! a \<le> Ap ! b"
  using assms(2,3)
proof (induction b)
  case 0
  then show ?case by simp
next
  case (Suc b)
  show ?case
  proof (cases "a = Suc b")
    case True
    then show ?thesis by simp
  next
    case False
    then have "Ap ! a \<le> Ap ! b" using Suc by simp
    moreover have "Ap ! b \<le> Ap ! (b + 1)" using assms(1) Suc.prems by simp
    ultimately show ?thesis by simp
  qed
qed

lemma fold_strength_row_inv:
  assumes mono: "\<forall>i<n. Ap ! i \<le> Ap ! (i + 1)"
      and cap: "Ap ! n \<le> cap"
      and init: "strength_inv (\<lambda>i. strong nrmsq diags i (theta * theta * diags ! i)) Ap Aj Ax n cap 0 st0"
      and k: "k \<le> n"
  shows "strength_inv (\<lambda>i. strong nrmsq diags i (theta * theta * diags ! i)) Ap Aj Ax n cap k
           (fold (strength_row nrmsq theta diags Ap Aj Ax) [0..<k] st0)"
  using k
proof (induction k)
  case 0
  then show ?case using init by simp
next
  case (Suc k)
  let ?keep = "\<lambda>i. strong nrmsq diags i (theta * theta * diags ! i)"
  let ?final = "fold (strength_row nrmsq theta diags Ap Aj Ax) [0..<k] st0"
  have inv: "strength_inv ?keep Ap Aj Ax n cap k ?final" using Suc by simp
  have "length (kept_upto ?keep Ap Aj Ax k) + Ap ! 0 \<le> Ap ! k"
    using length_kept_upto[OF mono, of k] Suc.prems by simp
  moreover have "Ap ! k \<le> Ap ! (k + 1)" using mono Suc.prems by simp
  moreover have "Ap ! (k + 1) \<le> Ap ! n" using row_pointer_mono[OF mono, of n "k + 1"] Suc.prems by simp
  ultimately have room: "nnz ?final + (Ap ! (k + 1) - Ap ! k) \<le> cap"
    using inv cap by (simp add: strength_inv_def)
  then have "nnz ?final + (Ap ! (k + 1) - Ap ! k) \<le> length (Sj_arr ?final)"
            "nnz ?final + (Ap ! (k + 1) - Ap ! k) \<le> length (Sx_arr ?final)"
    using inv by (simp_all add: strength_inv_def)
  from strength_row_out[OF this, of nrmsq theta diags Aj Ax] inv Suc.prems
  show ?case
    by (auto simp: strength_inv_def Let_def kept_upto_Suc nth_list_update le_Suc_eq)
qed

lemma fold_update_tabulate:
  assumes "k \<le> length d0"
  shows "length (fold (\<lambda>i d. d[i := f i]) [0..<k] d0) = length d0 \<and>
         (\<forall>i<k. fold (\<lambda>i d. d[i := f i]) [0..<k] d0 ! i = f i)"
  using assms by (induction k) (auto simp: nth_list_update less_Suc_eq)

lemma compute_diags_nth:
  "i < n_row \<Longrightarrow> compute_diags nrm n_row Ap Aj Ax ! i = nrm (diag_of_row Ap Aj Ax i)"
  using fold_update_tabulate[of n_row "replicate n_row 0" "\<lambda>i.  nrm (diag_of_row Ap Aj Ax i)"]
  by (simp add: compute_diags_def)

lemma fold_diag_sum:
  "fold (\<lambda>jj diag. if Aj ! jj = i then diag + Ax ! jj else diag) js (a :: 'a :: plus) =
   foldl (+) a (map snd (filter (\<lambda>e. fst e = i) (map (\<lambda>jj. (Aj ! jj, Ax ! jj)) js)))"
  by (induction js arbitrary: a) simp_all

lemma diag_of_row_sum:
  "diag_of_row Ap Aj Ax i = foldl (+) 0 (map snd (filter (\<lambda>e. fst e = i) (csr_row Ap Aj Ax i)))"
  by (simp add: diag_of_row_def fold_diag_sum csr_row_def)

lemma kept_upto_split:
  assumes "i \<le> n"
  shows "\<exists>rest. kept_upto keep Ap Aj Ax n = kept_upto keep Ap Aj Ax i @ rest"
proof -
  have "[0..<n] = [0..<i] @ [i..<n]"
    using assms by (metis le_add_diff_inverse upt_add_eq_append zero_le)
  then show ?thesis by (simp add: kept_upto_def)
qed

lemma strength_inv_row:
  assumes inv: "strength_inv keep Ap Aj Ax n cap n st" and i: "i < n"
  shows "csr_row (Sp_arr st) (Sj_arr st) (Sx_arr st) i = filter (keep i) (csr_row Ap Aj Ax i)"
proof -
  let ?a = "length (kept_upto keep Ap Aj Ax i)"
  let ?r = "filter (keep i) (csr_row Ap Aj Ax i)"
  obtain rest where rest: "kept_upto keep Ap Aj Ax n = kept_upto keep Ap Aj Ax (Suc i) @ rest"
    using kept_upto_split[of "Suc i" n] i by (metis Suc_leI)
  have Spi: "Sp_arr st ! i = ?a" and Spi1: "Sp_arr st ! (i + 1) = ?a + length ?r"
    using inv i by (simp_all add: strength_inv_def kept_upto_Suc)
  have o: "out st = kept_upto keep Ap Aj Ax i @ ?r @ rest"
    using inv rest by (simp add: strength_inv_def kept_upto_Suc)
  have le: "?a + length ?r \<le> nnz st"
    using inv rest by (simp add: strength_inv_def kept_upto_Suc)
  have "csr_row (Sp_arr st) (Sj_arr st) (Sx_arr st) i = map (\<lambda>k. (Sj_arr st ! k, Sx_arr st ! k)) [?a..<?a + length ?r]"
    unfolding csr_row_def Spi Spi1 ..
  also have "\<dots> = take (length ?r) (drop ?a (out st))"
    using le by (simp add: out_def take_map drop_map drop_upt take_upt)
  also have "\<dots> = ?r" by (simp add: o)
  finally show ?thesis .
qed

lemma csr_wf_mono: "csr_wf n_row n_col Ap Aj \<Longrightarrow> \<forall>i<n_row. Ap ! i \<le> Ap ! (i + 1)"
  by (simp add: csr_wf_def)

lemma csr_wf_col:
  assumes "csr_wf n_row n_col Ap Aj" "i < n_row" "e \<in> set (csr_row Ap Aj Ax i)"
  shows "fst e < n_col"
proof -
  from assms(3) obtain jj where jj: "Ap ! i \<le> jj" "jj < Ap ! (i + 1)" "e = (Aj ! jj, Ax ! jj)"
    by (auto simp: csr_row_def)
  have "Ap ! 0 \<le> Ap ! i" "Ap ! (i + 1) \<le> Ap ! n_row"
    using row_pointer_mono[OF csr_wf_mono[OF assms(1)]] assms(2) by simp_all
  with jj assms(1) show ?thesis by (simp add: csr_wf_def)
qed

lemma strength_result:
  fixes theta :: "'f::{ord,times,zero}" and Ax :: "'a::{plus,zero} list"
  assumes mono: "\<forall>i<n_row. Ap ! i \<le> Ap ! (i + 1)"
      and lens: "length Sp0 = n_row + 1" "Ap ! n_row \<le> length Sj0" "Ap ! n_row \<le> length Sx0"
      and res: "symmetric_strength_of_connection nrm nrmsq n_row theta Ap Aj Ax Sp0 Sj0 Sx0
                  = (Sp', Sj', Sx')"
  defines "diags \<equiv> compute_diags nrm n_row Ap Aj Ax"
  defines "keep \<equiv> \<lambda>i. strong nrmsq diags i (theta * theta * diags ! i)"
  shows "\<forall>i<n_row. csr_row Sp' Sj' Sx' i = filter (keep i) (csr_row Ap Aj Ax i)"
    and "\<forall>i\<le>n_row. Sp' ! i = length (kept_upto keep Ap Aj Ax i)"
proof -
  let ?init = "\<lparr>nnz = 0, Sp_arr = Sp0[0 := 0], Sj_arr = Sj0, Sx_arr = Sx0\<rparr>"
  let ?final = "fold (strength_row nrmsq theta diags Ap Aj Ax) [0..<n_row] ?init"
  have init: "strength_inv keep Ap Aj Ax n_row (Ap ! n_row) 0 ?init"
    using lens by (simp add: strength_inv_def out_def)
  have inv: "strength_inv keep Ap Aj Ax n_row (Ap ! n_row) n_row ?final"
    unfolding keep_def
    by (rule fold_strength_row_inv[OF mono _ init[unfolded keep_def]]) simp_all
  have eq: "Sp' = Sp_arr ?final" "Sj' = Sj_arr ?final" "Sx' = Sx_arr ?final"
    using res by (simp_all add: symmetric_strength_of_connection_def Let_def diags_def)
  show "\<forall>i<n_row. csr_row Sp' Sj' Sx' i = filter (keep i) (csr_row Ap Aj Ax i)"
    unfolding eq using strength_inv_row[OF inv] by blast
  show "\<forall>i\<le>n_row. Sp' ! i = length (kept_upto keep Ap Aj Ax i)"
    unfolding eq using inv by (simp add: strength_inv_def)
qed

lemma strong_iff_is_strong:
  fixes theta :: "'f::{ord,times,zero}"
  assumes "i < n_row" "fst e < n_row"
  shows "strong nrmsq (compute_diags nrm n_row Ap Aj Ax) i
           (theta * theta * compute_diags nrm n_row Ap Aj Ax ! i) e
         \<longleftrightarrow> fst e = i \<or> is_strong nrm nrmsq theta Ap Aj Ax i e"
  using assms
  by (auto simp: strong_def is_strong_def compute_diags_nth diag_of_row_sum csr_diag_def)

text \<open>
  Claim C1. For a square CSR matrix \<open>A\<close> with non-decreasing row pointers, row \<open>i\<close> of the
  computed \<open>S\<close> is row \<open>i\<close> of \<open>A\<close> filtered by the test "the entry is on the diagonal, or
  \<open>normSquared(A[i,j]) \<ge> theta\<^sup>2 * diag[i] * diag[j]\<close>", where \<open>diag[k]\<close> is the norm of the sum
  of the stored diagonal entries of row \<open>k\<close>. So every stored diagonal entry is retained, an
  off-diagonal entry is retained iff it passes the test, nothing else is in the row, and
  every retained entry carries its value from \<open>A\<close>. The result holds for every \<open>theta\<close> and
  for every arithmetic of the scalar types: the sum, the products \<open>theta * theta * diag[i] *
  diag[j]\<close> (from left to right) and the comparison are the operations of the types, with
  no law assumed, so the statement is the same for exact numbers and for rounding
  floating-point numbers.
\<close>

theorem strength_row_is_strong_filter:
  fixes theta :: "'f::{ord,times,zero}" and Ax :: "'a::{plus,zero} list"
  assumes wf: "csr_wf n_row n_row Ap Aj" and "Ap ! n_row \<le> length Ax"
      and lens: "length Sp0 = n_row + 1" "Ap ! n_row \<le> length Sj0" "Ap ! n_row \<le> length Sx0"
      and res: "symmetric_strength_of_connection nrm nrmsq n_row theta Ap Aj Ax Sp0 Sj0 Sx0
                  = (Sp', Sj', Sx')"
      and i: "i < n_row"
  shows "csr_row Sp' Sj' Sx' i =
         filter (\<lambda>e. fst e = i \<or> is_strong nrm nrmsq theta Ap Aj Ax i e) (csr_row Ap Aj Ax i)"
proof -
  have "csr_row Sp' Sj' Sx' i =
        filter (strong nrmsq (compute_diags nrm n_row Ap Aj Ax) i
           (theta * theta * compute_diags nrm n_row Ap Aj Ax ! i)) (csr_row Ap Aj Ax i)"
    using strength_result(1)[OF csr_wf_mono[OF wf] lens res] i by blast
  also have "\<dots> = filter (\<lambda>e. fst e = i \<or> is_strong nrm nrmsq theta Ap Aj Ax i e) (csr_row Ap Aj Ax i)"
    by (rule filter_cong[OF refl]) (use csr_wf_col[OF wf i, of _ Ax] i in \<open>simp add: strong_iff_is_strong\<close>)
  finally show ?thesis .
qed

text \<open>
  The theorem at a matrix with a duplicated diagonal entry in row 0 (\<open>diag[0] = |2 + 2|\<close>),
  a strong off-diagonal entry in row 0 and a weak one in row 1, for \<open>theta = 1\<close>.
\<close>

theorem strength_row_is_strong_filter_witness:
  "csr_row [0, 3, 4] [1, 0, 0, 1, 7] [5, 2, 2, 4, 9 :: int] 0 =
     filter (\<lambda>e. fst e = 0 \<or> is_strong mynorm mynormsq (1 :: int) [0, 3, 5] [1, 0, 0, 0, 1] [5, 2, 2, 1, 4] 0 e)
       (csr_row [0, 3, 5] [1, 0, 0, 0, 1] [5, 2, 2, 1, 4] 0)
   \<and> csr_row [0, 3, 4] [1, 0, 0, 1, 7] [5, 2, 2, 4, 9 :: int] 1 =
     filter (\<lambda>e. fst e = 1 \<or> is_strong mynorm mynormsq (1 :: int) [0, 3, 5] [1, 0, 0, 0, 1] [5, 2, 2, 1, 4] 1 e)
       (csr_row [0, 3, 5] [1, 0, 0, 0, 1] [5, 2, 2, 1, 4] 1)
   \<and> csr_row [0, 3, 4] [1, 0, 0, 1, 7] [5, 2, 2, 4, 9 :: int] 1 = [(1, 4)]"
proof -
  have wf: "csr_wf 2 2 [0, 3, 5] [1, 0, 0, 0, 1]"
    by code_simp
  have res: "symmetric_strength_of_connection mynorm mynormsq 2 (1 :: int)
               [0, 3, 5] [1, 0, 0, 0, 1] [5, 2, 2, 1, 4 :: int] [7, 7, 7] [7, 7, 7, 7, 7] [9, 9, 9, 9, 9]
             = ([0, 3, 4], [1, 0, 0, 1, 7], [5, 2, 2, 4, 9])"
    by code_simp
  have r1: "csr_row [0, 3, 4] [1, 0, 0, 1, 7] [5, 2, 2, 4, 9 :: int] 1 = [(1, 4)]"
    by code_simp
  show ?thesis
    using strength_row_is_strong_filter[OF wf _ _ _ _ res, of 0]
          strength_row_is_strong_filter[OF wf _ _ _ _ res, of 1] r1
    by simp
qed

text \<open>
  The same statement in the arithmetic of \<open>double\<close>, at \<open>A = [[5, 1], [1, d]]\<close> with \<open>d\<close> the
  double nearest to \<open>0.2\<close> and \<open>theta = 1\<close>. The kernel computes the threshold of the entry
  \<open>(0, 1)\<close> as \<open>1 * 1 * 5 * d\<close>, which rounds to 1, and keeps the entry; the test \<open>is_strong\<close>,
  evaluated in the same arithmetic, keeps it as well, and row 0 of \<open>S\<close> is the filtered
  row 0 of \<open>A\<close>.
\<close>

lemma strength_double_example:
  "symmetric_strength_of_connection double_mynorm double_mynormsq 2 (Double 1) [0, 2, 4] [0, 1, 0, 1]
     [Double 5, Double 1, Double 1, Double (3602879701896397 / 18014398509481984)]
     [7, 7, 7] [7, 7, 7, 7] [Double 9, Double 9, Double 9, Double 9]
   = ([0, 2, 4], [0, 1, 0, 1],
      [Double 5, Double 1, Double 1, Double (3602879701896397 / 18014398509481984)])
   \<and> is_strong double_mynorm double_mynormsq (Double 1) [0, 2, 4] [0, 1, 0, 1]
       [Double 5, Double 1, Double 1, Double (3602879701896397 / 18014398509481984)] 0 (1, Double 1)
   \<and> csr_row [0, 2, 4] [0, 1, 0, 1]
       [Double 5, Double 1, Double 1, Double (3602879701896397 / 18014398509481984)] 0
     = filter (\<lambda>e. fst e = 0 \<or> is_strong double_mynorm double_mynormsq (Double 1) [0, 2, 4] [0, 1, 0, 1]
                 [Double 5, Double 1, Double 1, Double (3602879701896397 / 18014398509481984)] 0 e)
         (csr_row [0, 2, 4] [0, 1, 0, 1]
            [Double 5, Double 1, Double 1, Double (3602879701896397 / 18014398509481984)] 0)"
proof -
  have u: "[0..<2 :: nat] = [0, 1]" "[2..<4 :: nat] = [2, 3]" by (simp_all add: upt_rec)
  note d = double_mynorm_def double_mynormsq_def zero_double_def plus_double_def times_double_def
    less_eq_double_def double_add_def double_mul_def round_double_examples
  have k: "symmetric_strength_of_connection double_mynorm double_mynormsq 2 (Double 1) [0, 2, 4]
     [0, 1, 0, 1] [Double 5, Double 1, Double 1, Double (3602879701896397 / 18014398509481984)]
     [7, 7, 7] [7, 7, 7, 7] [Double 9, Double 9, Double 9, Double 9]
   = ([0, 2, 4], [0, 1, 0, 1],
      [Double 5, Double 1, Double 1, Double (3602879701896397 / 18014398509481984)])"
    by (simp add: symmetric_strength_of_connection_def compute_diags_def diag_of_row_def
        strength_row_def strength_entry_def push_entry_def d u Let_def)
  have s: "is_strong double_mynorm double_mynormsq (Double 1) [0, 2, 4] [0, 1, 0, 1]
       [Double 5, Double 1, Double 1, Double (3602879701896397 / 18014398509481984)] 0 (1, Double 1)"
    by (simp add: is_strong_def csr_diag_def csr_row_def d u)
  have r: "csr_row [0, 2, 4] [0, 1, 0, 1]
       [Double 5, Double 1, Double 1, Double (3602879701896397 / 18014398509481984)] 0
       = [(0, Double 5), (1, Double 1)]"
    by (simp add: csr_row_def u)
  have f: "filter (\<lambda>e. fst e = 0 \<or> is_strong double_mynorm double_mynormsq (Double 1) [0, 2, 4]
                 [0, 1, 0, 1]
                 [Double 5, Double 1, Double 1, Double (3602879701896397 / 18014398509481984)] 0 e)
             [(0, Double 5), (1, Double 1)] = [(0, Double 5), (1, Double 1)]"
    using s by simp
  show ?thesis unfolding r f using k s by blast
qed

text \<open>
  Claim C10. Within every row the retained entries keep the order (and the values) they
  have in \<open>A\<close>: row \<open>i\<close> of \<open>S\<close> is a subsequence of row \<open>i\<close> of \<open>A\<close>, so a row with sorted
  column indices stays sorted; moreover \<open>Sp[0] = 0\<close>, \<open>Sp\<close> is non-decreasing and
  \<open>Sp[n_row] \<le> Ap[n_row]\<close>.
\<close>

theorem strength_preserves_row_order:
  fixes theta :: "'f::{ord,times,zero}" and Ax :: "'a::{plus,zero} list"
  assumes wf: "csr_wf n_row n_row Ap Aj" and "Ap ! n_row \<le> length Ax"
      and lens: "length Sp0 = n_row + 1" "Ap ! n_row \<le> length Sj0" "Ap ! n_row \<le> length Sx0"
      and res: "symmetric_strength_of_connection nrm nrmsq n_row theta Ap Aj Ax Sp0 Sj0 Sx0
                  = (Sp', Sj', Sx')"
  shows "(\<forall>i<n_row. subseq (csr_row Sp' Sj' Sx' i) (csr_row Ap Aj Ax i) \<and>
            (sorted (map fst (csr_row Ap Aj Ax i)) \<longrightarrow> sorted (map fst (csr_row Sp' Sj' Sx' i))))
       \<and> Sp' ! 0 = 0 \<and> (\<forall>i<n_row. Sp' ! i \<le> Sp' ! (i + 1)) \<and> Sp' ! n_row \<le> Ap ! n_row"
proof -
  note mono = csr_wf_mono[OF wf]
  note rows = strength_result(1)[OF mono lens res]
  note ptrs = strength_result(2)[OF mono lens res]
  have "\<forall>i<n_row. subseq (csr_row Sp' Sj' Sx' i) (csr_row Ap Aj Ax i) \<and>
            (sorted (map fst (csr_row Ap Aj Ax i)) \<longrightarrow> sorted (map fst (csr_row Sp' Sj' Sx' i)))"
    using rows by (simp add: sorted_filter)
  moreover have "Sp' ! 0 = 0" using ptrs by simp
  moreover have "\<forall>i<n_row. Sp' ! i \<le> Sp' ! (i + 1)"
    using ptrs by (simp add: kept_upto_Suc)
  moreover have "Sp' ! n_row \<le> Ap ! n_row"
    using ptrs length_kept_upto[OF mono, of n_row] by (metis add_leD1 le_refl)
  ultimately show ?thesis by blast
qed

text \<open>
  The theorem at a 3 by 3 matrix with sorted rows and \<open>theta = 1\<close>; row 0 loses its middle
  entry.
\<close>

theorem strength_preserves_row_order_witness:
  "csr_wf 3 3 [0, 3, 6, 9] [0, 1, 2, 0, 1, 2, 0, 1, 2]
   \<and> csr_row [0, 2, 4, 7] [0, 2, 1, 2, 0, 1, 2, 7, 7] [4, 6, 4, 5, 6, 5, 4, 9, 9 :: int] 0 = [(0, 4), (2, 6)]
   \<and> subseq (csr_row [0, 2, 4, 7] [0, 2, 1, 2, 0, 1, 2, 7, 7] [4, 6, 4, 5, 6, 5, 4, 9, 9 :: int] 0)
             (csr_row [0, 3, 6, 9] [0, 1, 2, 0, 1, 2, 0, 1, 2] [4, 1, 6, 1, 4, 5, 6, 5, 4] 0)
   \<and> sorted (map fst (csr_row [0, 2, 4, 7] [0, 2, 1, 2, 0, 1, 2, 7, 7] [4, 6, 4, 5, 6, 5, 4, 9, 9 :: int] 0))
   \<and> [0, 2, 4, 7] ! 3 \<le> [0, 3, 6, 9 :: nat] ! 3"
proof -
  have wf: "csr_wf 3 3 [0, 3, 6, 9] [0, 1, 2, 0, 1, 2, 0, 1, 2]"
    by code_simp
  have res: "symmetric_strength_of_connection mynorm mynormsq 3 (1 :: int)
               [0, 3, 6, 9] [0, 1, 2, 0, 1, 2, 0, 1, 2] [4, 1, 6, 1, 4, 5, 6, 5, 4 :: int]
               [7, 7, 7, 7] [7, 7, 7, 7, 7, 7, 7, 7, 7] [9, 9, 9, 9, 9, 9, 9, 9, 9]
             = ([0, 2, 4, 7], [0, 2, 1, 2, 0, 1, 2, 7, 7], [4, 6, 4, 5, 6, 5, 4, 9, 9])"
    by code_simp
  have srt: "sorted (map fst (csr_row [0, 3, 6, 9] [0, 1, 2, 0, 1, 2, 0, 1, 2] [4, 1, 6, 1, 4, 5, 6, 5, 4 :: int] 0))"
    by code_simp
  have r0: "csr_row [0, 2, 4, 7] [0, 2, 1, 2, 0, 1, 2, 7, 7] [4, 6, 4, 5, 6, 5, 4, 9, 9 :: int] 0 = [(0, 4), (2, 6)]"
    by code_simp
  have z: "0 < (3 :: nat)" by simp
  have l1: "[0, 3, 6, 9] ! 3 \<le> length [4, 1, 6, 1, 4, 5, 6, 5, 4 :: int]" by simp
  have l2: "length [7, 7, 7, 7 :: nat] = 3 + 1" by simp
  have l3: "[0, 3, 6, 9] ! 3 \<le> length [7, 7, 7, 7, 7, 7, 7, 7, 7 :: nat]" by simp
  have l4: "[0, 3, 6, 9] ! 3 \<le> length [9, 9, 9, 9, 9, 9, 9, 9, 9 :: int]" by simp
  note t = strength_preserves_row_order[OF wf l1 l2 l3 l4 res]
  note a = conjunct1[OF t, THEN spec, of 0, THEN mp, OF z]
  from a srt wf r0 show ?thesis
    by simp
qed

text \<open>
  Claim C7, as amended. The structure of \<open>S\<close> is contained in the structure of \<open>A\<close>, and row
  \<open>i\<close> of \<open>S\<close> holds the diagonal position \<open>(i, i)\<close> exactly when row \<open>i\<close> of \<open>A\<close> stores it:
  the kernel copies entries of \<open>A\<close> and never creates one.
\<close>

theorem strength_structure_subset_diag_kept:
  fixes theta :: "'f::{ord,times,zero}" and Ax :: "'a::{plus,zero} list"
  assumes wf: "csr_wf n_row n_row Ap Aj" and "Ap ! n_row \<le> length Ax"
      and lens: "length Sp0 = n_row + 1" "Ap ! n_row \<le> length Sj0" "Ap ! n_row \<le> length Sx0"
      and res: "symmetric_strength_of_connection nrm nrmsq n_row theta Ap Aj Ax Sp0 Sj0 Sx0
                  = (Sp', Sj', Sx')"
      and i: "i < n_row"
  shows "fst ` set (csr_row Sp' Sj' Sx' i) \<subseteq> fst ` set (csr_row Ap Aj Ax i) \<and>
         (i \<in> fst ` set (csr_row Sp' Sj' Sx' i) \<longleftrightarrow> i \<in> fst ` set (csr_row Ap Aj Ax i))"
  using strength_result(1)[OF csr_wf_mono[OF wf] lens res] i
  by (auto simp: strong_def)

text \<open>The amended statement at a matrix whose row 1 stores a weak entry and a diagonal one.\<close>

theorem strength_structure_subset_diag_kept_witness:
  "fst ` set (csr_row [0, 3, 4] [1, 0, 0, 1, 7] [5, 2, 2, 4, 9 :: int] 1)
     \<subseteq> fst ` set (csr_row [0, 3, 5] [1, 0, 0, 0, 1] [5, 2, 2, 1, 4 :: int] 1)
   \<and> 1 \<in> fst ` set (csr_row [0, 3, 4] [1, 0, 0, 1, 7] [5, 2, 2, 4, 9 :: int] 1)
   \<and> 1 \<in> fst ` set (csr_row [0, 3, 5] [1, 0, 0, 0, 1] [5, 2, 2, 1, 4 :: int] 1)"
proof -
  have wf: "csr_wf 2 2 [0, 3, 5] [1, 0, 0, 0, 1]"
    by code_simp
  have res: "symmetric_strength_of_connection mynorm mynormsq 2 (1 :: int)
               [0, 3, 5] [1, 0, 0, 0, 1] [5, 2, 2, 1, 4 :: int] [7, 7, 7] [7, 7, 7, 7, 7] [9, 9, 9, 9, 9]
             = ([0, 3, 4], [1, 0, 0, 1, 7], [5, 2, 2, 4, 9])"
    by code_simp
  have d: "1 \<in> fst ` set (csr_row [0, 3, 5] [1, 0, 0, 0, 1] [5, 2, 2, 1, 4 :: int] 1)"
    by code_simp
  show ?thesis
    using strength_structure_subset_diag_kept[OF wf _ _ _ _ res, of 1] d by simp
qed

text \<open>
  Claim C7 as stated fails: a matrix with no stored diagonal entry (here the 2 by 2
  matrix with ones off the diagonal, \<open>theta = 0\<close>) gives an \<open>S\<close> whose row 0 holds column 1
  only, so the diagonal position \<open>(0, 0)\<close> is not in \<open>S\<close>.
\<close>

theorem strength_missing_diagonal_counterexample:
  "csr_wf 2 2 [0, 1, 2] [1, 0]
   \<and> symmetric_strength_of_connection mynorm mynormsq 2 (0 :: int) [0, 1, 2] [1, 0] [1, 1 :: int]
        [7, 7, 7] [7, 7] [9, 9] = ([0, 1, 2], [1, 0], [1, 1])
   \<and> 0 \<notin> fst ` set (csr_row [0, 1, 2] [1, 0] [1, 1 :: int] 0)"
  by code_simp

section \<open>Aggregation: proofs\<close>

lemma fill_zero_replicate: "length x0 = n \<Longrightarrow> fill_zero n x0 = replicate n 0"
proof -
  assume len: "length x0 = n"
  have "k \<le> length x0 \<Longrightarrow> fold (\<lambda>i x. x[i := 0]) [0..<k] x0 = replicate k 0 @ drop k x0" for k
  proof (induction k)
    case 0
    then show ?case by simp
  next
    case (Suc k)
    then have "k < length x0" by simp
    then have "(replicate k 0 @ drop k x0)[k := 0] = replicate (Suc k) 0 @ drop (Suc k) x0"
      by (simp add: list_update_append replicate_append_same upd_conv_take_nth_drop)
    with Suc show ?case by simp
  qed
  from this[of n] len show ?thesis by (simp add: fill_zero_def)
qed

lemma cols_lt:
  assumes "csr_wf n n Ap Aj" "i < n" "j \<in> set (cols Ap Aj i)"
  shows "j < n"
proof -
  from assms(3) have "(j, ()) \<in> set (csr_row Ap Aj (replicate (length Aj) ()) i)"
    by (auto simp: cols_def csr_row_def)
  from csr_wf_col[OF assms(1,2) this] show ?thesis by simp
qed

lemma nbr_not_isolated:
  assumes "graph_symmetric n Ap Aj" "i < n" "j \<in> set (cols Ap Aj i)" "j \<noteq> i"
  shows "\<not> isolated Ap Aj j"
proof -
  have "i \<in> set (cols Ap Aj j)" using assms by (auto simp: graph_symmetric_def)
  with assms(4) show ?thesis by (auto simp: isolated_def)
qed

lemma fold_mark_row:
  "length (fold (\<lambda>jj x. x[Aj ! jj := v]) jjs x) = length x \<and>
   (\<forall>w<length x. fold (\<lambda>jj x. x[Aj ! jj := v]) jjs x ! w =
      (if w \<in> (\<lambda>jj. Aj ! jj) ` set jjs then v else x ! w))"
proof (induction jjs arbitrary: x)
  case Nil
  then show ?case by simp
next
  case (Cons jj jjs)
  show ?case
    by (auto simp: Cons.IH nth_list_update)
qed

lemma scan_neighbors_eq:
  "scan_neighbors Aj x i jjs (False, hn) =
     ((\<exists>jj\<in>set jjs. Aj ! jj \<noteq> i \<and> x ! (Aj ! jj) \<noteq> 0), hn \<or> (\<exists>jj\<in>set jjs. Aj ! jj \<noteq> i))"
  by (induction jjs arbitrary: hn) (auto simp: Let_def)

lemma attach_cases:
  "(\<exists>jj\<in>set jjs. 0 < x ! (Aj ! jj) \<and> attach Aj i jjs x = x[i := - (x ! (Aj ! jj))]) \<or>
   ((\<forall>jj\<in>set jjs. \<not> 0 < x ! (Aj ! jj)) \<and> attach Aj i jjs x = x)"
  by (induction jjs) (auto simp: Let_def)

lemma pass1_invI:
  assumes "length x = n" "length y = n" "1 \<le> nx" "nx \<le> max n 1"
    and "\<And>v. v < n \<Longrightarrow> x ! v = - int n \<or> (0 \<le> x ! v \<and> x ! v < int nx)"
    and "\<And>v. v < n \<Longrightarrow> (x ! v = - int n) = (isolated Ap Aj v \<and> v < k)"
    and "\<And>v. v < n \<Longrightarrow> 0 < x ! v \<Longrightarrow> \<not> isolated Ap Aj v"
    and "\<And>b. b + 1 < nx \<Longrightarrow> y ! b < n \<and> x ! (y ! b) = int b + 1"
    and "\<And>v. v < k \<Longrightarrow> x ! v = 0 \<Longrightarrow> \<exists>j\<in>set (cols Ap Aj v). j \<noteq> v \<and> 0 < x ! j"
  shows "pass1_inv n Ap Aj k (x, y, nx)"
  unfolding pass1_inv_def prod.case using assms by blast

lemma pass1_invD:
  assumes "pass1_inv n Ap Aj k (x, y, nx)"
  shows "length x = n" "length y = n" "1 \<le> nx" "nx \<le> max n 1"
    and "\<And>v. v < n \<Longrightarrow> x ! v = - int n \<or> (0 \<le> x ! v \<and> x ! v < int nx)"
    and "\<And>v. v < n \<Longrightarrow> (x ! v = - int n) = (isolated Ap Aj v \<and> v < k)"
    and "\<And>v. v < n \<Longrightarrow> 0 < x ! v \<Longrightarrow> \<not> isolated Ap Aj v"
    and "\<And>b. b + 1 < nx \<Longrightarrow> y ! b < n \<and> x ! (y ! b) = int b + 1"
    and "\<And>v. v < k \<Longrightarrow> x ! v = 0 \<Longrightarrow> \<exists>j\<in>set (cols Ap Aj v). j \<noteq> v \<and> 0 < x ! j"
  using assms unfolding pass1_inv_def prod.case by blast+

lemma pass1_inv_skip:
  assumes inv: "pass1_inv n Ap Aj k (x, y, nx)" and k: "k < n" and xk: "x ! k \<noteq> 0"
  shows "pass1_inv n Ap Aj (Suc k) (x, y, nx)"
proof -
  note d = pass1_invD[OF inv]
  have nk: "x ! k \<noteq> - int n" using d(6)[OF k] by simp
  then have "0 < x ! k" using d(5)[OF k] xk by linarith
  then have niso: "\<not> isolated Ap Aj k" using d(7)[OF k] by simp
  show ?thesis
  proof (rule pass1_invI)
    fix v assume v: "v < n"
    show "(x ! v = - int n) = (isolated Ap Aj v \<and> v < Suc k)"
      using d(6)[OF v] nk niso by (cases "v = k") (auto simp: less_Suc_eq)
  next
    fix v assume "v < Suc k" "x ! v = 0"
    then have "v < k" using xk by (cases "v = k") auto
    then show "\<exists>j\<in>set (cols Ap Aj v). j \<noteq> v \<and> 0 < x ! j"
      using d(9) \<open>x ! v = 0\<close> by simp
  qed (use d in auto)
qed

lemma pass1_inv_isolated:
  assumes inv: "pass1_inv n Ap Aj k (x, y, nx)" and k: "k < n" and xk: "x ! k = 0"
    and iso: "isolated Ap Aj k"
  shows "pass1_inv n Ap Aj (Suc k) (x[k := - int n], y, nx)"
proof -
  note d = pass1_invD[OF inv]
  let ?x = "x[k := - int n]"
  have x': "?x ! v = (if v = k then - int n else x ! v)" if "v < n" for v
    using that d(1) by (simp add: nth_list_update)
  have npos: "0 < n" using k by simp
  show ?thesis
  proof (rule pass1_invI)
    show "length ?x = n" using d(1) by simp
  next
    fix v assume v: "v < n"
    show "?x ! v = - int n \<or> (0 \<le> ?x ! v \<and> ?x ! v < int nx)"
      using d(5)[OF v] x'[OF v] by auto
    show "(?x ! v = - int n) = (isolated Ap Aj v \<and> v < Suc k)"
      using d(6)[OF v] x'[OF v] iso by (cases "v = k") (auto simp: less_Suc_eq)
    show "\<not> isolated Ap Aj v" if "0 < ?x ! v"
      using that d(7)[OF v] x'[OF v] by (cases "v = k") auto
  next
    fix b assume b: "b + 1 < nx"
    then have yb: "y ! b < n" "x ! (y ! b) = int b + 1" using d(8) by auto
    then have "y ! b \<noteq> k" using xk by auto
    then show "y ! b < n \<and> ?x ! (y ! b) = int b + 1"
      using yb x'[OF yb(1)] by simp
  next
    fix v assume vk: "v < Suc k" and v0: "?x ! v = 0"
    have "v < n" using vk k by simp
    from x'[OF this] v0 npos have "v \<noteq> k" "x ! v = 0" by (auto split: if_splits)
    then have "v < k" using vk by simp
    from d(9)[OF this \<open>x ! v = 0\<close>] obtain j where j: "j \<in> set (cols Ap Aj v)" "j \<noteq> v" "0 < x ! j"
      by blast
    then have "j \<noteq> k" using xk by auto
    then have "?x ! j = x ! j" by simp
    with j show "\<exists>j\<in>set (cols Ap Aj v). j \<noteq> v \<and> 0 < ?x ! j" by auto
  qed (use d in auto)
qed

lemma pass1_inv_blocked:
  assumes wf: "csr_wf n n Ap Aj" and sym: "graph_symmetric n Ap Aj"
    and inv: "pass1_inv n Ap Aj k (x, y, nx)" and k: "k < n" and xk: "x ! k = 0"
    and j: "j \<in> set (cols Ap Aj k)" "j \<noteq> k" "x ! j \<noteq> 0"
  shows "pass1_inv n Ap Aj (Suc k) (x, y, nx)"
proof -
  note d = pass1_invD[OF inv]
  have jn: "j < n" using cols_lt[OF wf k j(1)] .
  have "\<not> isolated Ap Aj j" using nbr_not_isolated[OF sym k j(1,2)] .
  then have "x ! j \<noteq> - int n" using d(6)[OF jn] by simp
  then have jpos: "0 < x ! j" using d(5)[OF jn] j(3) by linarith
  have niso: "\<not> isolated Ap Aj k" using j by (auto simp: isolated_def)
  have npos: "0 < n" using k by simp
  show ?thesis
  proof (rule pass1_invI)
    fix v assume v: "v < n"
    show "(x ! v = - int n) = (isolated Ap Aj v \<and> v < Suc k)"
      using d(6)[OF v] niso xk npos by (cases "v = k") (auto simp: less_Suc_eq)
  next
    fix v assume vk: "v < Suc k" and v0: "x ! v = 0"
    show "\<exists>j\<in>set (cols Ap Aj v). j \<noteq> v \<and> 0 < x ! j"
    proof (cases "v = k")
      case True
      then show ?thesis using j jpos by auto
    next
      case False
      then have "v < k" using vk by simp
      then show ?thesis using d(9) v0 by simp
    qed
  qed (use d in auto)
qed

lemma root_count:
  assumes roots: "\<And>b. b + 1 < nx \<Longrightarrow> y ! b < n \<and> x ! (y ! b) = int b + 1"
    and k: "k < n" "j < n" "j \<noteq> k" "x ! k = 0" "x ! j = 0"
  shows "nx + 1 \<le> n"
proof -
  let ?B = "{b. b + 1 < nx}"
  have inj: "inj_on (\<lambda>b. y ! b) ?B"
  proof (rule inj_onI)
    fix a b assume "a \<in> ?B" "b \<in> ?B" "y ! a = y ! b"
    then have a: "a + 1 < nx" and b: "b + 1 < nx" and eq: "y ! a = y ! b" by simp_all
    have "x ! (y ! a) = int a + 1" using roots[OF a] by (rule conjunct2)
    moreover have "x ! (y ! b) = int b + 1" using roots[OF b] by (rule conjunct2)
    ultimately have "int a + 1 = int b + 1" unfolding eq by (rule trans[OF sym])
    then show "a = b" by simp
  qed
  have sub: "(\<lambda>b. y ! b) ` ?B \<subseteq> {..<n} - {k, j}"
  proof
    fix v assume "v \<in> (\<lambda>b. y ! b) ` ?B"
    then obtain b where b: "b + 1 < nx" "v = y ! b" by auto
    from roots[OF b(1)] b(2) have "v < n" "x ! v = int b + 1" by auto
    then show "v \<in> {..<n} - {k, j}" using k by auto
  qed
  have "?B = {..<nx - 1}" by auto
  then have "card ?B = nx - 1" by simp
  moreover have "card ((\<lambda>b. y ! b) ` ?B) = card ?B" using inj by (rule card_image)
  moreover have "card ((\<lambda>b. y ! b) ` ?B) \<le> card ({..<n} - {k, j})"
    using sub by (intro card_mono) auto
  moreover have "card ({..<n} - {k, j}) = n - 2"
    using k by (simp add: card_Diff_subset)
  ultimately have "nx - 1 \<le> n - 2" by simp
  moreover have "2 \<le> n" using k by linarith
  ultimately show ?thesis by linarith
qed

lemma pass1_inv_root:
  assumes wf: "csr_wf n n Ap Aj" and sym: "graph_symmetric n Ap Aj"
    and inv: "pass1_inv n Ap Aj k (x, y, nx)" and k: "k < n" and xk: "x ! k = 0"
    and j0: "j0 \<in> set (cols Ap Aj k)" "j0 \<noteq> k"
    and free: "\<And>j. j \<in> set (cols Ap Aj k) \<Longrightarrow> j \<noteq> k \<Longrightarrow> x ! j = 0"
  shows "pass1_inv n Ap Aj (Suc k)
           (fold (\<lambda>jj x. x[Aj ! jj := int nx]) [Ap ! k..<Ap ! (k + 1)] (x[k := int nx]),
            y[nx - 1 := k], nx + 1)"
proof -
  note d = pass1_invD[OF inv]
  let ?x = "fold (\<lambda>jj x. x[Aj ! jj := int nx]) [Ap ! k..<Ap ! (k + 1)] (x[k := int nx])"
  let ?y = "y[nx - 1 := k]"
  define M where "M = insert k (set (cols Ap Aj k))"
  have lenx: "length ?x = n" using fold_mark_row[of Aj "int nx" _ "x[k := int nx]"] d(1) by simp
  have x': "?x ! v = (if v \<in> M then int nx else x ! v)" if "v < n" for v
    using fold_mark_row[of Aj "int nx" "[Ap ! k..<Ap ! (k + 1)]" "x[k := int nx]"] that d(1)
    by (auto simp: M_def cols_def nth_list_update)
  have M0: "x ! v = 0" if "v \<in> M" for v
    using that free xk by (auto simp: M_def)
  have Mniso: "\<not> isolated Ap Aj v" if "v \<in> M" for v
  proof (cases "v = k")
    case True
    then show ?thesis using j0 by (auto simp: isolated_def)
  next
    case False
    then show ?thesis using that nbr_not_isolated[OF sym k, of v] by (auto simp: M_def)
  qed
  have j0n: "j0 < n" using cols_lt[OF wf k j0(1)] .
  have cnt: "nx + 1 \<le> n" using root_count[OF d(8) k j0n j0(2) xk free[OF j0]] by simp
  show ?thesis
  proof (rule pass1_invI)
    show "length ?x = n" by (rule lenx)
    show "length ?y = n" using d(2) by simp
    show "1 \<le> nx + 1" by simp
    show "nx + 1 \<le> max n 1" using cnt by simp
  next
    fix v assume v: "v < n"
    show "?x ! v = - int n \<or> (0 \<le> ?x ! v \<and> ?x ! v < int (nx + 1))"
      using d(5)[OF v] x'[OF v] by auto
    show "(?x ! v = - int n) = (isolated Ap Aj v \<and> v < Suc k)"
    proof (cases "v \<in> M")
      case True
      then have "?x ! v = int nx" using x'[OF v] by simp
      moreover have "int nx \<noteq> - int n" using d(3) by linarith
      ultimately show ?thesis using Mniso[OF True] by simp
    next
      case False
      then have "v \<noteq> k" by (auto simp: M_def)
      then show ?thesis using d(6)[OF v] x'[OF v] False by (auto simp: less_Suc_eq)
    qed
    show "\<not> isolated Ap Aj v" if "0 < ?x ! v"
      using that d(7)[OF v] x'[OF v] Mniso by (cases "v \<in> M") auto
  next
    fix b assume b: "b + 1 < nx + 1"
    show "?y ! b < n \<and> ?x ! (?y ! b) = int b + 1"
    proof (cases "b + 1 = nx")
      case True
      then have "?y ! b = k" using cnt d(2) by (auto simp: nth_list_update)
      then show ?thesis using x'[OF k] k True by (auto simp: M_def)
    next
      case False
      then have b': "b + 1 < nx" using b by simp
      then have yb: "y ! b < n" "x ! (y ! b) = int b + 1" using d(8) by auto
      then have "y ! b \<notin> M" using M0 by force
      moreover have "nx - 1 \<noteq> b" using False d(3) by linarith
      then have "?y ! b = y ! b" by simp
      ultimately show ?thesis using yb x'[OF yb(1)] by simp
    qed
  next
    fix v assume vk: "v < Suc k" and v0: "?x ! v = 0"
    have vn: "v < n" using vk k by simp
    from x'[OF vn] v0 d(3) have vM: "v \<notin> M" and xv: "x ! v = 0" by (auto split: if_splits)
    then have "v < k" using vk by (auto simp: M_def less_Suc_eq)
    from d(9)[OF this xv] obtain j where j: "j \<in> set (cols Ap Aj v)" "j \<noteq> v" "0 < x ! j"
      by blast
    have jn: "j < n" using cols_lt[OF wf vn j(1)] .
    have "0 < ?x ! j" using x'[OF jn] j(3) d(3) by auto
    with j show "\<exists>j\<in>set (cols Ap Aj v). j \<noteq> v \<and> 0 < ?x ! j" by auto
  qed
qed

lemma pass1_step_unfold:
  "pass1_step n Ap Aj k (x, y, nx) =
     (if x ! k \<noteq> 0 then (x, y, nx)
      else if isolated Ap Aj k then (x[k := - int n], y, nx)
      else if \<not> (\<exists>j\<in>set (cols Ap Aj k). j \<noteq> k \<and> x ! j \<noteq> 0) then
        (fold (\<lambda>jj x. x[Aj ! jj := int nx]) [Ap ! k..<Ap ! (k + 1)] (x[k := int nx]),
         y[nx - 1 := k], nx + 1)
      else (x, y, nx))"
proof -
  have scan: "scan_neighbors Aj x k [Ap ! k..<Ap ! (k + 1)] (False, False) =
        ((\<exists>j\<in>set (cols Ap Aj k). j \<noteq> k \<and> x ! j \<noteq> 0), \<not> isolated Ap Aj k)"
    by (simp add: scan_neighbors_eq isolated_def cols_def)
  show ?thesis
    unfolding pass1_step_def Let_def prod.case scan by simp
qed

lemma pass1_step_inv:
  assumes wf: "csr_wf n n Ap Aj" and sym: "graph_symmetric n Ap Aj"
    and inv: "pass1_inv n Ap Aj k s" and k: "k < n"
  shows "pass1_inv n Ap Aj (Suc k) (pass1_step n Ap Aj k s)"
proof -
  obtain x y nx where s: "s = (x, y, nx)" by (cases s) auto
  note inv' = inv[unfolded s]
  show ?thesis
  proof (cases "x ! k \<noteq> 0")
    case True
    then show ?thesis using pass1_inv_skip[OF inv' k] by (simp add: s pass1_step_unfold)
  next
    case x0: False
    show ?thesis
    proof (cases "isolated Ap Aj k")
      case True
      then show ?thesis
        using pass1_inv_isolated[OF inv' k] x0
        by (simp add: s pass1_step_unfold)
    next
      case niso: False
      then obtain j0 where j0: "j0 \<in> set (cols Ap Aj k)" "j0 \<noteq> k"
        by (auto simp: isolated_def)
      show ?thesis
      proof (cases "\<exists>j\<in>set (cols Ap Aj k). j \<noteq> k \<and> x ! j \<noteq> 0")
        case True
        then obtain j where "j \<in> set (cols Ap Aj k)" "j \<noteq> k" "x ! j \<noteq> 0" by blast
        from pass1_inv_blocked[OF wf sym inv' k _ this] x0 niso True show ?thesis
          unfolding s pass1_step_unfold by simp
      next
        case False
        then have free: "\<And>j. j \<in> set (cols Ap Aj k) \<Longrightarrow> j \<noteq> k \<Longrightarrow> x ! j = 0" by blast
        from pass1_inv_root[OF wf sym inv' k _ j0 free] x0 niso False show ?thesis
          unfolding s pass1_step_unfold by simp
      qed
    qed
  qed
qed

lemma pass1_fold_inv:
  assumes wf: "csr_wf n n Ap Aj" and sym: "graph_symmetric n Ap Aj"
    and init: "pass1_inv n Ap Aj 0 s0" and k: "k \<le> n"
  shows "pass1_inv n Ap Aj k (fold (pass1_step n Ap Aj) [0..<k] s0)"
  using k
proof (induction k)
  case 0
  then show ?case using init by simp
next
  case (Suc k)
  then show ?case using pass1_step_inv[OF wf sym, of k] by simp
qed

lemma pass1_init:
  "length y0 = n \<Longrightarrow> pass1_inv n Ap Aj 0 (replicate n 0, y0, 1)"
  by (rule pass1_invI) auto

lemma pass2_invI:
  assumes "length x = n" "1 \<le> nx" "nx \<le> max n 1"
    and "\<And>v. v < n \<Longrightarrow> x ! v = - int n \<or> (- int nx < x ! v \<and> x ! v < int nx)"
    and "\<And>v. v < n \<Longrightarrow> (x ! v = - int n) = isolated Ap Aj v"
    and "\<And>b. b + 1 < nx \<Longrightarrow> y ! b < n \<and> x ! (y ! b) = int b + 1"
    and "\<And>v. v < n \<Longrightarrow> x ! v = 0 \<Longrightarrow> k \<le> v \<and> (\<exists>j\<in>set (cols Ap Aj v). 0 < x ! j)"
  shows "pass2_inv n Ap Aj y nx k x"
  unfolding pass2_inv_def using assms by blast

lemma pass2_invD:
  assumes "pass2_inv n Ap Aj y nx k x"
  shows "length x = n" "1 \<le> nx" "nx \<le> max n 1"
    and "\<And>v. v < n \<Longrightarrow> x ! v = - int n \<or> (- int nx < x ! v \<and> x ! v < int nx)"
    and "\<And>v. v < n \<Longrightarrow> (x ! v = - int n) = isolated Ap Aj v"
    and "\<And>b. b + 1 < nx \<Longrightarrow> y ! b < n \<and> x ! (y ! b) = int b + 1"
    and "\<And>v. v < n \<Longrightarrow> x ! v = 0 \<Longrightarrow> k \<le> v \<and> (\<exists>j\<in>set (cols Ap Aj v). 0 < x ! j)"
  using assms unfolding pass2_inv_def by blast+

lemma pass2_init:
  assumes inv: "pass1_inv n Ap Aj n (x, y, nx)"
  shows "pass2_inv n Ap Aj y nx 0 x"
proof -
  note d = pass1_invD[OF inv]
  show ?thesis
  proof (rule pass2_invI)
    fix v assume v: "v < n"
    show "x ! v = - int n \<or> (- int nx < x ! v \<and> x ! v < int nx)"
      using d(5)[OF v] d(3) by auto
    show "(x ! v = - int n) = isolated Ap Aj v" using d(6)[OF v] v by simp
    show "0 \<le> v \<and> (\<exists>j\<in>set (cols Ap Aj v). 0 < x ! j)" if "x ! v = 0"
      using d(9)[OF v that] by auto
  qed (use d in auto)
qed

lemma pass2_step_inv:
  assumes wf: "csr_wf n n Ap Aj"
    and inv: "pass2_inv n Ap Aj y nx k x" and k: "k < n"
  shows "pass2_inv n Ap Aj y nx (Suc k) (pass2_step Ap Aj k x)"
proof (cases "x ! k \<noteq> 0")
  case True
  note d = pass2_invD[OF inv]
  have "pass2_inv n Ap Aj y nx (Suc k) x"
  proof (rule pass2_invI)
    fix v assume v: "v < n" and v0: "x ! v = 0"
    then have "v \<noteq> k" using True by auto
    then show "Suc k \<le> v \<and> (\<exists>j\<in>set (cols Ap Aj v). 0 < x ! j)"
      using d(7)[OF v v0] by auto
  qed (use d in auto)
  then show ?thesis using True by (simp add: pass2_step_def)
next
  case False
  then have xk: "x ! k = 0" by simp
  note d = pass2_invD[OF inv]
  have niso: "\<not> isolated Ap Aj k" using d(5)[OF k] xk k by auto
  from d(7)[OF k xk] obtain j' where "j' \<in> set (cols Ap Aj k)" "0 < x ! j'" by blast
  then have ex: "\<not> (\<forall>jj\<in>set [Ap ! k..<Ap ! (k + 1)]. \<not> 0 < x ! (Aj ! jj))"
    by (auto simp: cols_def)
  from attach_cases[of "[Ap ! k..<Ap ! (k + 1)]" x Aj k] ex
  obtain jj where jj: "jj \<in> set [Ap ! k..<Ap ! (k + 1)]" "0 < x ! (Aj ! jj)"
    "attach Aj k [Ap ! k..<Ap ! (k + 1)] x = x[k := - (x ! (Aj ! jj))]"
    by blast
  define j where "j = Aj ! jj"
  have jc: "j \<in> set (cols Ap Aj k)" using jj(1) by (auto simp: cols_def j_def)
  have jn: "j < n" using cols_lt[OF wf k jc] .
  have xj: "0 < x ! j" "x ! j < int nx" using jj(2) d(4)[OF jn] by (auto simp: j_def)
  have nxn: "int nx \<le> int n" using d(3) k by auto
  let ?x = "x[k := - (x ! j)]"
  have step: "pass2_step Ap Aj k x = ?x" using xk jj(3) by (simp add: pass2_step_def j_def)
  have x': "?x ! v = (if v = k then - (x ! j) else x ! v)" if "v < n" for v
    using that d(1) by (simp add: nth_list_update)
  have "pass2_inv n Ap Aj y nx (Suc k) ?x"
  proof (rule pass2_invI)
    show "length ?x = n" using d(1) by simp
  next
    fix v assume v: "v < n"
    show "?x ! v = - int n \<or> (- int nx < ?x ! v \<and> ?x ! v < int nx)"
      using d(4)[OF v] x'[OF v] xj by auto
    show "(?x ! v = - int n) = isolated Ap Aj v"
      using d(5)[OF v] x'[OF v] xj nxn niso by (cases "v = k") auto
    show "Suc k \<le> v \<and> (\<exists>j\<in>set (cols Ap Aj v). 0 < ?x ! j)" if v0: "?x ! v = 0"
    proof -
      from v0 x'[OF v] xj have vk: "v \<noteq> k" and xv: "x ! v = 0" by (auto split: if_splits)
      from d(7)[OF v xv] obtain i where i: "k \<le> v" "i \<in> set (cols Ap Aj v)" "0 < x ! i" by blast
      then have "i \<noteq> k" using xk by auto
      then have "0 < ?x ! i" using i(3) by simp
      then have "\<exists>j\<in>set (cols Ap Aj v). 0 < ?x ! j" using i(2) by blast
      moreover have "Suc k \<le> v" using i(1) vk by simp
      ultimately show ?thesis by blast
    qed
  next
    fix b assume b: "b + 1 < nx"
    then have yb: "y ! b < n" "x ! (y ! b) = int b + 1" using d(6) by auto
    then have "y ! b \<noteq> k" using xk by auto
    then show "y ! b < n \<and> ?x ! (y ! b) = int b + 1" using yb by simp
  qed (use d in auto)
  then show ?thesis by (simp add: step)
qed

lemma pass2_fold_inv:
  assumes wf: "csr_wf n n Ap Aj"
    and init: "pass2_inv n Ap Aj y nx 0 x0" and k: "k \<le> n"
  shows "pass2_inv n Ap Aj y nx k (fold (pass2_step Ap Aj) [0..<k] x0)"
  using k
proof (induction k)
  case 0
  then show ?case using init by simp
next
  case (Suc k)
  then show ?case using pass2_step_inv[OF wf, of y nx k] by simp
qed

lemma pass3_invD:
  assumes "pass3_inv n Ap Aj y nx k x"
  shows "length x = n" "1 \<le> nx"
    and "\<And>v. v < n \<Longrightarrow> k \<le> v \<Longrightarrow> x ! v \<noteq> 0 \<and> (x ! v = - int n \<longleftrightarrow> isolated Ap Aj v) \<and>
                       (x ! v = - int n \<or> (- int nx < x ! v \<and> x ! v < int nx))"
    and "\<And>v. v < n \<Longrightarrow> v < k \<Longrightarrow> - 1 \<le> x ! v \<and> x ! v < int nx - 1 \<and> (x ! v = - 1 \<longleftrightarrow> isolated Ap Aj v)"
    and "\<And>b. b + 1 < nx \<Longrightarrow> y ! b < n \<and> x ! (y ! b) = (if y ! b < k then int b else int b + 1)"
  using assms unfolding pass3_inv_def by blast+

lemma pass3_invI:
  assumes "length x = n" "1 \<le> nx"
    and "\<And>v. v < n \<Longrightarrow> k \<le> v \<Longrightarrow> x ! v \<noteq> 0 \<and> (x ! v = - int n \<longleftrightarrow> isolated Ap Aj v) \<and>
                       (x ! v = - int n \<or> (- int nx < x ! v \<and> x ! v < int nx))"
    and "\<And>v. v < n \<Longrightarrow> v < k \<Longrightarrow> - 1 \<le> x ! v \<and> x ! v < int nx - 1 \<and> (x ! v = - 1 \<longleftrightarrow> isolated Ap Aj v)"
    and "\<And>b. b + 1 < nx \<Longrightarrow> y ! b < n \<and> x ! (y ! b) = (if y ! b < k then int b else int b + 1)"
  shows "pass3_inv n Ap Aj y nx k x"
  unfolding pass3_inv_def using assms by blast

lemma pass3_init:
  assumes inv: "pass2_inv n Ap Aj y nx n x"
  shows "pass3_inv n Ap Aj y nx 0 x"
proof -
  note d = pass2_invD[OF inv]
  have nz: "x ! v \<noteq> 0" if "v < n" for v using d(7)[OF that] that by auto
  show ?thesis
    unfolding pass3_inv_def using d(1,2,4,5,6) nz by auto
qed

lemma pass3_step_inv:
  assumes inv: "pass3_inv n Ap Aj y nx k x" and k: "k < n"
  shows "\<exists>x'. pass3_step n Ap Aj k (x, y, nx - 1) = (x', y, nx - 1) \<and> pass3_inv n Ap Aj y nx (Suc k) x'"
proof -
  note d = pass3_invD[OF inv]
  define c where "c = (if 0 < x ! k then x ! k - 1 else if x ! k = - int n then - 1 else - x ! k - 1)"
  let ?x = "x[k := c]"
  from d(3)[OF k] have xk: "x ! k \<noteq> 0" "(x ! k = - int n) = isolated Ap Aj k"
    "x ! k = - int n \<or> (- int nx < x ! k \<and> x ! k < int nx)" by auto
  have step: "pass3_step n Ap Aj k (x, y, nx - 1) = (?x, y, nx - 1)"
    using xk(1) by (simp add: pass3_step_def c_def Let_def)
  have npos: "0 < int n" using k by simp
  have cb: "- 1 \<le> c" "c < int nx - 1" "(c = - 1) = isolated Ap Aj k"
    using xk npos d(2) unfolding c_def by (auto split: if_splits)
  have x': "?x ! v = (if v = k then c else x ! v)" if "v < n" for v
    using that d(1) by (simp add: nth_list_update)
  have "pass3_inv n Ap Aj y nx (Suc k) ?x"
  proof (rule pass3_invI)
    show "length ?x = n" using d(1) by simp
    show "1 \<le> nx" using d(2) .
  next
    fix v assume v: "v < n" "Suc k \<le> v"
    then have "?x ! v = x ! v" by simp
    moreover have "k \<le> v" using v by simp
    ultimately show "?x ! v \<noteq> 0 \<and> (?x ! v = - int n \<longleftrightarrow> isolated Ap Aj v) \<and>
                       (?x ! v = - int n \<or> (- int nx < ?x ! v \<and> ?x ! v < int nx))"
      using d(3)[OF v(1)] by auto
  next
    fix v assume v: "v < n" "v < Suc k"
    show "- 1 \<le> ?x ! v \<and> ?x ! v < int nx - 1 \<and> (?x ! v = - 1 \<longleftrightarrow> isolated Ap Aj v)"
    proof (cases "v = k")
      case True
      then show ?thesis using x'[OF v(1)] cb by simp
    next
      case False
      then have "v < k" using v by simp
      then show ?thesis using d(4)[OF v(1)] x'[OF v(1)] False by simp
    qed
  next
    fix b assume b: "b + 1 < nx"
    then have yb: "y ! b < n" "x ! (y ! b) = (if y ! b < k then int b else int b + 1)"
      using d(5) by auto
    have "?x ! (y ! b) = (if y ! b < Suc k then int b else int b + 1)"
    proof (cases "y ! b = k")
      case True
      then have "x ! k = int b + 1" using yb(2) by simp
      then have "c = int b" by (simp add: c_def)
      then show ?thesis using True x'[OF k] by simp
    next
      case False
      then show ?thesis using yb x'[OF yb(1)] by (auto simp: less_Suc_eq)
    qed
    with yb(1) show "y ! b < n \<and> ?x ! (y ! b) = (if y ! b < Suc k then int b else int b + 1)"
      by blast
  qed
  with step show ?thesis by blast
qed

lemma pass3_fold_inv:
  assumes init: "pass3_inv n Ap Aj y nx 0 x0" and k: "k \<le> n"
  shows "\<exists>x'. fold (pass3_step n Ap Aj) [0..<k] (x0, y, nx - 1) = (x', y, nx - 1) \<and>
              pass3_inv n Ap Aj y nx k x'"
  using k
proof (induction k)
  case 0
  then show ?case using init by simp
next
  case (Suc k)
  then obtain x' where x': "fold (pass3_step n Ap Aj) [0..<k] (x0, y, nx - 1) = (x', y, nx - 1)"
    "pass3_inv n Ap Aj y nx k x'" by auto
  from pass3_step_inv[OF x'(2)] Suc.prems x'(1) show ?case by simp
qed

text \<open>The result of the three passes on a symmetric graph.\<close>

lemma standard_aggregation_symmetric:
  assumes wf: "csr_wf n n Ap Aj" and sym: "graph_symmetric n Ap Aj"
    and len: "length x0 = n" "length y0 = n"
    and res: "standard_aggregation n Ap Aj x0 y0 = (count, x, y)"
  shows "length x = n"
    and "\<And>v. v < n \<Longrightarrow> - 1 \<le> x ! v \<and> x ! v < int count \<and> (x ! v = - 1 \<longleftrightarrow> isolated Ap Aj v)"
    and "\<And>b. b < count \<Longrightarrow> y ! b < n \<and> x ! (y ! b) = int b"
proof -
  obtain x1 y1 nx where s1: "fold (pass1_step n Ap Aj) [0..<n] (replicate n 0, y0, 1) = (x1, y1, nx)"
    by (metis prod_cases3)
  have i1: "pass1_inv n Ap Aj n (x1, y1, nx)"
    using pass1_fold_inv[OF wf sym pass1_init[OF len(2)], of n] s1 by simp
  define x2 where "x2 = fold (pass2_step Ap Aj) [0..<n] x1"
  have i2: "pass2_inv n Ap Aj y1 nx n x2"
    unfolding x2_def by (rule pass2_fold_inv[OF wf pass2_init[OF i1]]) simp
  from pass3_fold_inv[OF pass3_init[OF i2], of n]
  obtain x3 where s3: "fold (pass3_step n Ap Aj) [0..<n] (x2, y1, nx - 1) = (x3, y1, nx - 1)"
    and i3: "pass3_inv n Ap Aj y1 nx n x3" by auto
  have "standard_aggregation n Ap Aj x0 y0 = (nx - 1, x3, y1)"
    unfolding standard_aggregation_def Let_def fill_zero_replicate[OF len(1)] s1 prod.case
      x2_def[symmetric] s3 by simp
  with res have eq: "count = nx - 1" "x = x3" "y = y1" by simp_all
  note d = pass3_invD[OF i3]
  show "length x = n" using d(1) eq by simp
  show "- 1 \<le> x ! v \<and> x ! v < int count \<and> (x ! v = - 1 \<longleftrightarrow> isolated Ap Aj v)" if "v < n" for v
    using d(4)[OF that that] d(2) eq by (simp add: of_nat_diff)
  show "y ! b < n \<and> x ! (y ! b) = int b" if "b < count" for b
  proof -
    have "b + 1 < nx" using that eq by simp
    from d(5)[OF this] show ?thesis using eq by simp
  qed
qed

text \<open>
  Claim C4, as amended. \<open>standard_aggregation\<close> is a total function of its inputs, so it
  terminates. On a symmetric graph (the input its header assumes) with column indices
  below \<open>n_row\<close> and non-decreasing row pointers: every node ends with \<open>x[i] \<ge> -1\<close>; the
  non-negative values in \<open>x\<close> are exactly the ids \<open>0 .. count - 1\<close>, so their number is the
  returned count; and \<open>x[i] = -1\<close> exactly for the isolated nodes.
\<close>

theorem standard_aggregation_symmetric_labels:
  assumes wf: "csr_wf n_row n_row Ap Aj" and sym: "graph_symmetric n_row Ap Aj"
    and len: "length x0 = n_row" "length y0 = n_row"
    and res: "standard_aggregation n_row Ap Aj x0 y0 = (count, x, y)"
  shows "length x = n_row \<and> (\<forall>i<n_row. - 1 \<le> x ! i) \<and>
         {v \<in> set x. 0 \<le> v} = int ` {0..<count} \<and> card {v \<in> set x. 0 \<le> v} = count \<and>
         (\<forall>i<n_row. x ! i = - 1 \<longleftrightarrow> isolated Ap Aj i)"
proof -
  note r = standard_aggregation_symmetric[OF wf sym len res]
  have ids: "{v \<in> set x. 0 \<le> v} = int ` {0..<count}"
  proof (intro set_eqI iffI)
    fix v assume "v \<in> {v \<in> set x. 0 \<le> v}"
    then obtain i where i: "i < n_row" "v = x ! i" "0 \<le> v"
      using r(1) by (auto simp: in_set_conv_nth)
    then have "v < int count" using r(2)[OF i(1)] by simp
    then have "nat v < count" "v = int (nat v)" using i(3) by simp_all
    then show "v \<in> int ` {0..<count}" by (metis atLeastLessThan_iff imageI zero_le)
  next
    fix v assume "v \<in> int ` {0..<count}"
    then obtain b where b: "b < count" "v = int b" by auto
    from r(3)[OF b(1)] r(1) b(2) have "v \<in> set x" by (metis nth_mem)
    then show "v \<in> {v \<in> set x. 0 \<le> v}" using b(2) by simp
  qed
  have "card (int ` {0..<count}) = count" by (simp add: card_image)
  with ids r(1,2) show ?thesis by simp
qed

text \<open>
  The amended statement at the path graph on nodes 0..5 (with diagonal entries) together
  with a node 6 that stores only its diagonal entry: two aggregates, node 6 isolated.
\<close>

theorem standard_aggregation_symmetric_labels_witness:
  "length [0, 0, 1, 1, 1, 1, - 1 :: int] = 7
   \<and> {v \<in> set [0, 0, 1, 1, 1, 1, - 1 :: int]. 0 \<le> v} = int ` {0..<2}
   \<and> card {v \<in> set [0, 0, 1, 1, 1, 1, - 1 :: int]. 0 \<le> v} = 2
   \<and> isolated [0, 2, 5, 8, 11, 14, 16, 17] [0, 1, 0, 1, 2, 1, 2, 3, 2, 3, 4, 3, 4, 5, 4, 5, 6] 6"
proof -
  have wf: "csr_wf 7 7 [0, 2, 5, 8, 11, 14, 16, 17] [0, 1, 0, 1, 2, 1, 2, 3, 2, 3, 4, 3, 4, 5, 4, 5, 6]"
    by code_simp
  have sym: "graph_symmetric 7 [0, 2, 5, 8, 11, 14, 16, 17] [0, 1, 0, 1, 2, 1, 2, 3, 2, 3, 4, 3, 4, 5, 4, 5, 6]"
    by code_simp
  have res: "standard_aggregation 7 [0, 2, 5, 8, 11, 14, 16, 17]
               [0, 1, 0, 1, 2, 1, 2, 3, 2, 3, 4, 3, 4, 5, 4, 5, 6]
               [9, 9, 9, 9, 9, 9, 9] [7, 7, 7, 7, 7, 7, 7]
             = (2, [0, 0, 1, 1, 1, 1, - 1], [0, 3, 7, 7, 7, 7, 7])"
    by code_simp
  have l1: "length [9, 9, 9, 9, 9, 9, 9 :: int] = 7" by simp
  have l2: "length [7, 7, 7, 7, 7, 7, 7 :: nat] = 7" by simp
  note t = standard_aggregation_symmetric_labels[OF wf sym l1 l2 res]
  have z: "6 < (7 :: nat)" by simp
  have "[0, 0, 1, 1, 1, 1, - 1 :: int] ! 6 = - 1" by simp
  with t z show ?thesis by blast
qed

text \<open>
  Claim C4 as stated (every graph) fails: in the graph with the single edge \<open>0 \<rightarrow> 1\<close>, row 1
  stores no off-diagonal entry, so node 1 is isolated, yet Pass 1 puts it into the
  aggregate of node 0 and it ends with \<open>x[1] = 0\<close>.
\<close>

theorem standard_aggregation_nonsymmetric_counterexample:
  "csr_wf 2 2 [0, 1, 1] [1]
   \<and> standard_aggregation 2 [0, 1, 1] [1] [9, 9] [7, 7] = (1, [0, 0], [0, 7])
   \<and> isolated [0, 1, 1] [1] 1
   \<and> [0, 0 :: int] ! 1 \<noteq> - 1"
  by code_simp

text \<open>
  Claim C9. On the graph with rows \<open>0: {}\<close>, \<open>1: {0, 2}\<close>, \<open>2: {0, 1}\<close> no aggregate is formed in
  Pass 1 or 2. Pass 3 seeds aggregate 0 at node 1 (\<open>y[0] = 1\<close>, \<open>x[1] = 0\<close>); at node 2 the label
  0 is read as "unmarked", aggregate 1 is seeded there and takes node 1 with it. On return
  \<open>y[0] = 1\<close> but \<open>x[1] = 1\<close>: the root of aggregate 0 is not a member of aggregate 0.
  On symmetric graphs the property holds (\<open>standard_aggregation_symmetric\<close>, third part).
\<close>

theorem standard_aggregation_root_lost:
  "standard_aggregation 3 [0, 0, 2, 4] [0, 2, 0, 1] [9, 9, 9] [7, 7, 7] = (2, [- 1, 1, 1], [1, 2, 7])
   \<and> [- 1, 1, 1 :: int] ! ([1, 2, 7] ! 0) \<noteq> 0"
  by code_simp

lemma fold_mark_unmarked:
  assumes "v \<noteq> (0 :: int)"
  shows "length (fold (\<lambda>jj x. if x ! (Aj ! jj) = 0 then x[Aj ! jj := v] else x) jjs x) = length x \<and>
   (\<forall>w<length x. fold (\<lambda>jj x. if x ! (Aj ! jj) = 0 then x[Aj ! jj := v] else x) jjs x ! w =
      (if w \<in> (\<lambda>jj. Aj ! jj) ` set jjs \<and> x ! w = 0 then v else x ! w))"
proof (induction jjs arbitrary: x)
  case Nil
  then show ?case by simp
next
  case (Cons jj jjs)
  let ?f = "\<lambda>jj x. if x ! (Aj ! jj) = 0 then x[Aj ! jj := v] else x"
  let ?x1 = "?f jj x"
  have len1: "length ?x1 = length x" by simp
  have v1: "?x1 ! w = (if w = Aj ! jj \<and> x ! w = 0 then v else x ! w)" if "w < length x" for w
    using that by (auto simp: nth_list_update)
  have ih: "length (fold ?f jjs ?x1) = length ?x1 \<and>
     (\<forall>w<length ?x1. fold ?f jjs ?x1 ! w =
        (if w \<in> (\<lambda>jj. Aj ! jj) ` set jjs \<and> ?x1 ! w = 0 then v else ?x1 ! w))"
    by (rule Cons.IH)
  have "fold ?f (jj # jjs) x ! w =
      (if w \<in> (\<lambda>jj. Aj ! jj) ` set (jj # jjs) \<and> x ! w = 0 then v else x ! w)"
    if w: "w < length x" for w
  proof -
    have "fold ?f (jj # jjs) x ! w =
        (if w \<in> (\<lambda>jj. Aj ! jj) ` set jjs \<and> ?x1 ! w = 0 then v else ?x1 ! w)"
      using ih w len1 by simp
    also have "\<dots> = (if w \<in> (\<lambda>jj. Aj ! jj) ` set (jj # jjs) \<and> x ! w = 0 then v else x ! w)"
      unfolding v1[OF w] using assms by auto
    finally show ?thesis .
  qed
  moreover have "length (fold ?f (jj # jjs) x) = length x" using ih len1 by simp
  ultimately show ?case by blast
qed

lemma naive_step_inv:
  assumes inv: "naive_inv n k s" and k: "k < n"
  shows "naive_inv n (Suc k) (naive_step Ap Aj k s)"
proof -
  obtain x y nx where s: "s = (x, y, nx)" by (cases s) auto
  from inv have len: "length x = n" "length y = n" and nx: "1 \<le> nx" "nx \<le> k + 1"
    and vals: "\<And>v. v < n \<Longrightarrow> 0 \<le> x ! v \<and> x ! v < int nx"
    and marked: "\<And>v. v < k \<Longrightarrow> x ! v \<noteq> 0"
    and roots: "\<And>b. b + 1 < nx \<Longrightarrow> y ! b < n \<and> x ! (y ! b) = int b + 1"
    unfolding s naive_inv_def prod.case by blast+
  show ?thesis
  proof (cases "x ! k \<noteq> 0")
    case True
    then have "\<And>v. v < Suc k \<Longrightarrow> x ! v \<noteq> 0" using marked by (auto simp: less_Suc_eq)
    then have "naive_inv n (Suc k) (x, y, nx)"
      unfolding naive_inv_def prod.case using len nx vals roots by auto
    then show ?thesis using True by (simp add: s naive_step_def)
  next
    case False
    then have xk: "x ! k = 0" by simp
    let ?x1 = "x[k := int nx]"
    let ?x = "fold (\<lambda>jj x. if x ! (Aj ! jj) = 0 then x[Aj ! jj := int nx] else x)
                [Ap ! k..<Ap ! (k + 1)] ?x1"
    let ?y = "y[nx - 1 := k]"
    have nz: "int nx \<noteq> 0" using nx by simp
    note m = fold_mark_unmarked[OF nz, of Aj "[Ap ! k..<Ap ! (k + 1)]" ?x1]
    have lenx: "length ?x = n" using m len by simp
    have x': "?x ! v = (if v \<in> (\<lambda>jj. Aj ! jj) ` set [Ap ! k..<Ap ! (k + 1)] \<and> ?x1 ! v = 0
                       then int nx else ?x1 ! v)" if "v < n" for v
      using m that len by simp
    have x1: "?x1 ! v = (if v = k then int nx else x ! v)" if "v < n" for v
      using that len by (simp add: nth_list_update)
    have keep: "?x ! v = x ! v" if "v < n" "x ! v \<noteq> 0" for v
      using x'[OF that(1)] x1[OF that(1)] that(2) xk by auto
    have step: "naive_step Ap Aj k s = (?x, ?y, nx + 1)"
      using xk by (simp add: s naive_step_def Let_def)
    have "naive_inv n (Suc k) (?x, ?y, nx + 1)"
      unfolding naive_inv_def prod.case
    proof (intro conjI allI impI)
      show "length ?x = n" by (rule lenx)
      show "length ?y = n" using len by simp
      show "1 \<le> nx + 1" by simp
      show "nx + 1 \<le> Suc k + 1" using nx by simp
    next
      fix v assume v: "v < n"
      show "0 \<le> ?x ! v" using x'[OF v] x1[OF v] vals[OF v] by auto
      show "?x ! v < int (nx + 1)" using x'[OF v] x1[OF v] vals[OF v] by auto
    next
      fix v assume v: "v < Suc k"
      then have vn: "v < n" using k by simp
      show "?x ! v \<noteq> 0"
      proof (cases "v = k")
        case True
        then show ?thesis using x'[OF vn] x1[OF vn] nz by auto
      next
        case False
        then have "x ! v \<noteq> 0" using v marked by simp
        then show ?thesis using keep[OF vn] by simp
      qed
    next
      fix b assume b: "b + 1 < nx + 1"
      have yx: "?y ! b < n \<and> ?x ! (?y ! b) = int b + 1"
      proof (cases "b + 1 = nx")
        case True
        then have "?y ! b = k" using nx k len by (auto simp: nth_list_update)
        moreover have "?x ! k = int nx" using x'[OF k] x1[OF k] by auto
        ultimately show ?thesis using k True by auto
      next
        case False
        then have b': "b + 1 < nx" using b by simp
        from roots[OF this] have yb: "y ! b < n" "x ! (y ! b) = int b + 1" by auto
        have "nx - 1 \<noteq> b" using False nx by linarith
        then have "?y ! b = y ! b" by simp
        moreover have "?x ! (y ! b) = x ! (y ! b)" using keep[OF yb(1)] yb(2) by simp
        ultimately show ?thesis using yb by simp
      qed
      show "?y ! b < n" using yx by blast
      show "?x ! (?y ! b) = int b + 1" using yx by blast
    qed
    then show ?thesis by (simp add: step)
  qed
qed

lemma naive_fold_inv:
  assumes "naive_inv n 0 s0" "k \<le> n"
  shows "naive_inv n k (fold (naive_step Ap Aj) [0..<k] s0)"
  using assms(2)
proof (induction k)
  case 0
  then show ?case using assms(1) by simp
next
  case (Suc k)
  then show ?case using naive_step_inv[of n k _ Ap Aj] by simp
qed

text \<open>
  What \<open>naive_aggregation\<close> does guarantee: every node is labelled with an id between 1 and
  the returned count, and \<open>y[k - 1]\<close> is a member of aggregate \<open>k\<close>.
\<close>

lemma naive_aggregation_labels:
  assumes len: "length x0 = n_row" "length y0 = n_row"
    and res: "naive_aggregation n_row Ap Aj x0 y0 = (count, x, y)"
  shows "length x = n_row \<and> (\<forall>i<n_row. 1 \<le> x ! i \<and> x ! i \<le> int count) \<and>
         (\<forall>k<count. y ! k < n_row \<and> x ! (y ! k) = int k + 1)"
proof -
  obtain x1 y1 nx where f: "fold (naive_step Ap Aj) [0..<n_row] (replicate n_row 0, y0, 1) = (x1, y1, nx)"
    by (metis prod_cases3)
  have "naive_inv n_row 0 (replicate n_row 0, y0, 1)"
    using len by (simp add: naive_inv_def)
  from naive_fold_inv[OF this le_refl, of Ap Aj] f
  have inv: "naive_inv n_row n_row (x1, y1, nx)" by simp
  have "naive_aggregation n_row Ap Aj x0 y0 = (nx - 1, x1, y1)"
    unfolding naive_aggregation_def Let_def fill_zero_replicate[OF len(1)] f prod.case ..
  with res have eq: "count = nx - 1" "x = x1" "y = y1" by simp_all
  from inv have lenx: "length x1 = n_row" and nx: "1 \<le> nx"
    and vals: "\<And>v. v < n_row \<Longrightarrow> 0 \<le> x1 ! v \<and> x1 ! v < int nx"
    and marked: "\<And>v. v < n_row \<Longrightarrow> x1 ! v \<noteq> 0"
    and roots: "\<And>b. b + 1 < nx \<Longrightarrow> y1 ! b < n_row \<and> x1 ! (y1 ! b) = int b + 1"
    unfolding naive_inv_def prod.case by blast+
  have "1 \<le> x ! i \<and> x ! i \<le> int count" if "i < n_row" for i
    using vals[OF that] marked[OF that] nx unfolding eq by (simp add: of_nat_diff)
  moreover have "y ! k < n_row \<and> x ! (y ! k) = int k + 1" if "k < count" for k
    using roots[of k] that unfolding eq by simp
  ultimately show ?thesis using lenx eq by simp
qed

text \<open>
  Claim C6. \<open>naive_aggregation\<close> numbers the aggregates from 1 and returns their number:
  on the graph with the single edge \<open>0 - 1\<close> it returns 1 with \<open>x = [1, 1]\<close>, so
  \<open>x[0] < count\<close> does not hold. The labels lie between 1 and the count
  (\<open>naive_aggregation_labels\<close>).
\<close>

theorem naive_aggregation_one_based:
  "naive_aggregation 2 [0, 1, 2] [1, 0] [9, 9] [7, 7] = (1, [1, 1], [0, 7])
   \<and> \<not> [1, 1 :: int] ! 0 < int 1"
  by code_simp

section \<open>Incomplete block matrix product: proofs\<close>

lemma set_lookup_fold_ok:
  assumes "\<forall>c<length S0. S0 ! c = None" "\<forall>p\<in>{a..<b}. Sj ! p < length S0"
  shows "length (fold (\<lambda>jj S. S[Sj ! jj := Some jj]) [a..<b] S0) = length S0 \<and>
         lookup_ok Sj a b (fold (\<lambda>jj S. S[Sj ! jj := Some jj]) [a..<b] S0)"
  using assms(2)
proof (induction b)
  case 0
  then show ?case using assms(1) by (simp add: lookup_ok_def)
next
  case (Suc b)
  show ?case
  proof (cases "a \<le> b")
    case False
    then show ?thesis using assms(1) by (simp add: lookup_ok_def)
  next
    case True
    let ?S = "fold (\<lambda>jj S. S[Sj ! jj := Some jj]) [a..<b] S0"
    have ih: "length ?S = length S0" "lookup_ok Sj a b ?S" using Suc by simp_all
    have eq: "fold (\<lambda>jj S. S[Sj ! jj := Some jj]) [a..<Suc b] S0 = ?S[Sj ! b := Some b]"
      using True by simp
    have "lookup_ok Sj a (Suc b) (?S[Sj ! b := Some b])"
      unfolding lookup_ok_def
    proof (intro allI impI)
      fix c assume c: "c < length (?S[Sj ! b := Some b])"
      then have c': "c < length ?S" by simp
      show "case ?S[Sj ! b := Some b] ! c of
              None \<Rightarrow> \<forall>p\<in>{a..<Suc b}. Sj ! p \<noteq> c
            | Some p \<Rightarrow> p \<in> {a..<Suc b} \<and> Sj ! p = c \<and> (\<forall>q\<in>{p + 1..<Suc b}. Sj ! q \<noteq> c)"
      proof (cases "c = Sj ! b")
        case True
        then show ?thesis using c' \<open>a \<le> b\<close> by simp
      next
        case False
        then have same: "?S[Sj ! b := Some b] ! c = ?S ! c" by simp
        from ih(2) c' have "case ?S ! c of
              None \<Rightarrow> \<forall>p\<in>{a..<b}. Sj ! p \<noteq> c
            | Some p \<Rightarrow> p \<in> {a..<b} \<and> Sj ! p = c \<and> (\<forall>q\<in>{p + 1..<b}. Sj ! q \<noteq> c)"
          by (simp add: lookup_ok_def)
        then show ?thesis unfolding same using False
          by (auto split: option.splits simp: less_Suc_eq)
      qed
    qed
    then show ?thesis using ih(1) eq by simp
  qed
qed

lemma lookup_okD_None:
  assumes "lookup_ok Sj a b S" "c < length S" "S ! c = None" "p \<in> {a..<b}"
  shows "Sj ! p \<noteq> c"
proof -
  from assms(1,2) have "case S ! c of
         None \<Rightarrow> (\<forall>p\<in>{a..<b}. Sj ! p \<noteq> c)
       | Some p \<Rightarrow> p \<in> {a..<b} \<and> Sj ! p = c \<and> (\<forall>q\<in>{p + 1..<b}. Sj ! q \<noteq> c)"
    unfolding lookup_ok_def by blast
  with assms(3,4) show ?thesis by simp
qed

lemma lookup_okD_Some:
  assumes "lookup_ok Sj a b S" "c < length S" "S ! c = Some p"
  shows "p \<in> {a..<b}" "Sj ! p = c" "\<And>q. q \<in> {p + 1..<b} \<Longrightarrow> Sj ! q \<noteq> c"
proof -
  from assms(1,2) have "case S ! c of
         None \<Rightarrow> (\<forall>p\<in>{a..<b}. Sj ! p \<noteq> c)
       | Some p \<Rightarrow> p \<in> {a..<b} \<and> Sj ! p = c \<and> (\<forall>q\<in>{p + 1..<b}. Sj ! q \<noteq> c)"
    unfolding lookup_ok_def by blast
  with assms(3) have r: "p \<in> {a..<b} \<and> Sj ! p = c \<and> (\<forall>q\<in>{p + 1..<b}. Sj ! q \<noteq> c)" by simp
  from r show "p \<in> {a..<b}" "Sj ! p = c" by blast+
  from r show "\<And>q. q \<in> {p + 1..<b} \<Longrightarrow> Sj ! q \<noteq> c" by blast
qed

lemma clear_lookup_fold:
  assumes ok: "lookup_ok Sj a b S"
  shows "fold (\<lambda>jj S. S[Sj ! jj := None]) [a..<b] S = replicate (length S) None"
proof -
  let ?R = "fold (\<lambda>jj S. S[Sj ! jj := None]) [a..<b] S"
  note m = fold_mark_row[of Sj None "[a..<b]" S]
  have "?R ! c = None" if c: "c < length S" for c
  proof (cases "c \<in> (\<lambda>jj. Sj ! jj) ` set [a..<b]")
    case True
    then show ?thesis using m c by simp
  next
    case False
    then have no: "\<forall>p\<in>{a..<b}. Sj ! p \<noteq> c" by auto
    have "S ! c = None"
    proof (cases "S ! c")
      case (Some p)
      from lookup_okD_Some(1,2)[OF ok c Some] no show ?thesis by blast
    qed simp
    then show ?thesis using m c False by simp
  qed
  then show ?thesis using m by (simp add: list_eq_iff_nth_eq)
qed

lemma lookup_ok_hit:
  assumes ok: "lookup_ok Sj a b S" and c: "c < length S"
  shows "S ! c = Some p \<longleftrightarrow> p \<in> {a..<b} \<and> Sj ! p = c \<and> (\<forall>q\<in>{p + 1..<b}. Sj ! q \<noteq> Sj ! p)"
proof
  assume "S ! c = Some p"
  from lookup_okD_Some[OF ok c this]
  show "p \<in> {a..<b} \<and> Sj ! p = c \<and> (\<forall>q\<in>{p + 1..<b}. Sj ! q \<noteq> Sj ! p)"
    by simp
next
  assume r: "p \<in> {a..<b} \<and> Sj ! p = c \<and> (\<forall>q\<in>{p + 1..<b}. Sj ! q \<noteq> Sj ! p)"
  show "S ! c = Some p"
  proof (cases "S ! c")
    case None
    from lookup_okD_None[OF ok c None, of p] r show ?thesis by blast
  next
    case (Some q)
    note q = lookup_okD_Some[OF ok c Some]
    have "\<not> q < p" using q(3)[of p] r by auto
    moreover have "\<not> p < q" using q(1,2) r by auto
    ultimately show ?thesis using Some by simp
  qed
qed


lemma fold_accumulate:
  fixes Sx :: "'c::plus list"
  assumes "\<forall>c<length S. \<forall>q. S ! c = Some q \<longrightarrow> q < length Sx"
  shows "length (fold (accumulate mul Ax Bj Bx S jj) kks Sx) = length Sx \<and>
         (\<forall>p<length Sx. fold (accumulate mul Ax Bj Bx S jj) kks Sx ! p =
            foldl (+) (Sx ! p) (map (\<lambda>kk. mul (Ax ! jj) (Bx ! kk))
                                 (filter (\<lambda>kk. S ! (Bj ! kk) = Some p) kks)))"
  using assms
proof (induction kks arbitrary: Sx)
  case Nil
  then show ?case by simp
next
  case (Cons kk kks)
  let ?Sx1 = "accumulate mul Ax Bj Bx S jj kk Sx"
  have len1: "length ?Sx1 = length Sx"
    by (simp add: accumulate_def Let_def split: option.splits)
  have v1: "?Sx1 ! p = (if S ! (Bj ! kk) = Some p then Sx ! p + mul (Ax ! jj) (Bx ! kk) else Sx ! p)"
    if "p < length Sx" for p
    using that by (auto simp: accumulate_def Let_def nth_list_update split: option.splits)
  have "\<forall>c<length S. \<forall>q. S ! c = Some q \<longrightarrow> q < length ?Sx1"
    using Cons.prems len1 by simp
  from Cons.IH[OF this] len1 v1 show ?case
    by auto
qed

lemma fold_multiply_row:
  fixes Sx :: "'c::plus list"
  assumes "\<forall>c<length S. \<forall>q. S ! c = Some q \<longrightarrow> q < length Sx"
  shows "length (fold (\<lambda>jj Sx. let j = Aj ! jj in
                          fold (accumulate mul Ax Bj Bx S jj) [Bp ! j..<Bp ! (j + 1)] Sx) jjs Sx)
           = length Sx \<and>
         (\<forall>p<length Sx.
            fold (\<lambda>jj Sx. let j = Aj ! jj in
                    fold (accumulate mul Ax Bj Bx S jj) [Bp ! j..<Bp ! (j + 1)] Sx) jjs Sx ! p =
            foldl (+) (Sx ! p) (concat (map (\<lambda>jj. map (\<lambda>kk. mul (Ax ! jj) (Bx ! kk))
                          (filter (\<lambda>kk. S ! (Bj ! kk) = Some p) [Bp ! (Aj ! jj)..<Bp ! (Aj ! jj + 1)]))
                 jjs)))"
  using assms
proof (induction jjs arbitrary: Sx)
  case Nil
  then show ?case by simp
next
  case (Cons jj jjs)
  let ?Sx1 = "fold (accumulate mul Ax Bj Bx S jj) [Bp ! (Aj ! jj)..<Bp ! (Aj ! jj + 1)] Sx"
  note a = fold_accumulate[OF Cons.prems, of mul Ax Bj Bx jj "[Bp ! (Aj ! jj)..<Bp ! (Aj ! jj + 1)]"]
  have "\<forall>c<length S. \<forall>q. S ! c = Some q \<longrightarrow> q < length ?Sx1"
    using Cons.prems a by simp
  from Cons.IH[OF this] a show ?case
    by (simp add: Let_def)
qed


lemma concat_map_Nil: "concat (map (\<lambda>x. []) xs) = []"
  by (induction xs) simp_all

lemma mat_mult_row_step:
  fixes Sx :: "'c::plus list"
  assumes ab: "Sp ! k \<le> Sp ! (k + 1)" "Sp ! (k + 1) \<le> length Sx"
    and Scol: "\<forall>p\<in>{Sp ! k..<Sp ! (k + 1)}. Sj ! p < n_bcol"
    and Bcol: "\<forall>jj\<in>{Ap ! k..<Ap ! (k + 1)}. \<forall>kk\<in>{Bp ! (Aj ! jj)..<Bp ! (Aj ! jj + 1)}. Bj ! kk < n_bcol"
  shows "\<exists>Sx'. mat_mult_row mul Ap Aj Ax Bp Bj Bx Sp Sj k (replicate n_bcol None, Sx)
                 = (replicate n_bcol None, Sx') \<and> length Sx' = length Sx \<and>
           (\<forall>p<length Sx. Sx' ! p =
              (if p \<in> {Sp ! k..<Sp ! (k + 1)}
               then accumulated mul Ap Aj Ax Bp Bj Bx Sp Sj k p (Sx ! p) else Sx ! p))"
proof -
  let ?a = "Sp ! k" and ?b = "Sp ! (k + 1)"
  let ?S0 = "replicate n_bcol (None :: nat option)"
  let ?S1 = "set_lookup Sp Sj k ?S0"
  let ?Sx1 = "multiply_row mul Ap Aj Ax Bp Bj Bx ?S1 k Sx"
  have "length ?S1 = length ?S0 \<and> lookup_ok Sj ?a ?b ?S1"
    unfolding set_lookup_def using Scol by (intro set_lookup_fold_ok) simp_all
  then have len1: "length ?S1 = n_bcol" and ok: "lookup_ok Sj ?a ?b ?S1" by simp_all
  have clear: "clear_lookup Sp Sj k ?S1 = ?S0"
    unfolding clear_lookup_def using clear_lookup_fold[OF ok] len1 by simp
  have inb: "\<forall>c<length ?S1. \<forall>q. ?S1 ! c = Some q \<longrightarrow> q < length Sx"
  proof (intro allI impI)
    fix c q assume "c < length ?S1" "?S1 ! c = Some q"
    from lookup_okD_Some(1)[OF ok this] ab(2) show "q < length Sx" by simp
  qed
  note m = fold_multiply_row[OF inb, of Aj mul Ax Bj Bx Bp "[Ap ! k..<Ap ! (k + 1)]",
      folded multiply_row_def]
  have gain: "foldl (+) s (concat (map (\<lambda>jj. map (\<lambda>kk. mul (Ax ! jj) (Bx ! kk))
                  (filter (\<lambda>kk. ?S1 ! (Bj ! kk) = Some p) [Bp ! (Aj ! jj)..<Bp ! (Aj ! jj + 1)]))
                 [Ap ! k..<Ap ! (k + 1)]))
        = (if p \<in> {?a..<?b} then accumulated mul Ap Aj Ax Bp Bj Bx Sp Sj k p s else s)" for p s
  proof -
    have hit: "(?S1 ! (Bj ! kk) = Some p) \<longleftrightarrow>
               (p \<in> {?a..<?b} \<and> last_of_column Sp Sj k p \<and> Bj ! kk = Sj ! p)"
      if "jj \<in> set [Ap ! k..<Ap ! (k + 1)]" "kk \<in> set [Bp ! (Aj ! jj)..<Bp ! (Aj ! jj + 1)]" for jj kk
    proof -
      have "Bj ! kk < length ?S1" using Bcol that len1 by simp
      from lookup_ok_hit[OF ok this, of p] show ?thesis
        by (auto simp: last_of_column_def)
    qed
    have "concat (map (\<lambda>jj. map (\<lambda>kk. mul (Ax ! jj) (Bx ! kk))
                  (filter (\<lambda>kk. ?S1 ! (Bj ! kk) = Some p) [Bp ! (Aj ! jj)..<Bp ! (Aj ! jj + 1)]))
                 [Ap ! k..<Ap ! (k + 1)])
        = concat (map (\<lambda>jj. map (\<lambda>kk. mul (Ax ! jj) (Bx ! kk))
                  (filter (\<lambda>kk. p \<in> {?a..<?b} \<and> last_of_column Sp Sj k p \<and> Bj ! kk = Sj ! p)
                     [Bp ! (Aj ! jj)..<Bp ! (Aj ! jj + 1)]))
                 [Ap ! k..<Ap ! (k + 1)])"
      by (intro arg_cong[where f = concat] map_cong refl filter_cong) (rule hit)
    also have "foldl (+) s \<dots> = (if p \<in> {?a..<?b} then accumulated mul Ap Aj Ax Bp Bj Bx Sp Sj k p s else s)"
    proof (cases "p \<in> {?a..<?b} \<and> last_of_column Sp Sj k p")
      case True
      then show ?thesis by (simp add: accumulated_def products_def)
    next
      case False
      then show ?thesis by (auto simp: accumulated_def concat_map_Nil)
    qed
    finally show ?thesis .
  qed
  have "mat_mult_row mul Ap Aj Ax Bp Bj Bx Sp Sj k (?S0, Sx) = (?S0, ?Sx1)"
    by (simp add: mat_mult_row_def Let_def clear)
  moreover have "length ?Sx1 = length Sx" using m by simp
  moreover have "\<forall>p<length Sx. ?Sx1 ! p =
              (if p \<in> {?a..<?b} then accumulated mul Ap Aj Ax Bp Bj Bx Sp Sj k p (Sx ! p) else Sx ! p)"
    using m gain by simp
  ultimately show ?thesis by blast
qed


lemma csr_wf_entry:
  assumes wf: "csr_wf n_row n_col Ap Aj" and i: "i < n_row" and jj: "jj \<in> {Ap ! i..<Ap ! (i + 1)}"
  shows "Aj ! jj < n_col"
proof -
  have "Ap ! 0 \<le> Ap ! i" "Ap ! (i + 1) \<le> Ap ! n_row"
    using row_pointer_mono[OF csr_wf_mono[OF wf]] i by simp_all
  with jj wf show ?thesis by (simp add: csr_wf_def)
qed

lemma mat_mult_fold:
  fixes Sx :: "'c::plus list"
  assumes wfS: "csr_wf n_brow n_bcol Sp Sj" and wfA: "csr_wf n_brow n_mid Ap Aj"
    and wfB: "csr_wf n_mid n_bcol Bp Bj" and lenS: "Sp ! n_brow \<le> length Sx" and k: "k \<le> n_brow"
  shows "\<exists>Sx'. fold (mat_mult_row mul Ap Aj Ax Bp Bj Bx Sp Sj) [0..<k] (replicate n_bcol None, Sx)
                 = (replicate n_bcol None, Sx') \<and> length Sx' = length Sx \<and>
           (\<forall>i<k. \<forall>p\<in>{Sp ! i..<Sp ! (i + 1)}.
               Sx' ! p = accumulated mul Ap Aj Ax Bp Bj Bx Sp Sj i p (Sx ! p)) \<and>
           (\<forall>p<length Sx. p \<notin> {Sp ! 0..<Sp ! k} \<longrightarrow> Sx' ! p = Sx ! p)"
  using k
proof (induction k)
  case 0
  then show ?case by simp
next
  case (Suc k)
  then obtain Sxk where
    f: "fold (mat_mult_row mul Ap Aj Ax Bp Bj Bx Sp Sj) [0..<k] (replicate n_bcol None, Sx)
          = (replicate n_bcol None, Sxk)"
    and len: "length Sxk = length Sx"
    and rows: "\<And>i p. i < k \<Longrightarrow> p \<in> {Sp ! i..<Sp ! (i + 1)} \<Longrightarrow>
                 Sxk ! p = accumulated mul Ap Aj Ax Bp Bj Bx Sp Sj i p (Sx ! p)"
    and rest: "\<And>p. p < length Sx \<Longrightarrow> p \<notin> {Sp ! 0..<Sp ! k} \<Longrightarrow> Sxk ! p = Sx ! p"
    by auto
  note monoS = row_pointer_mono[OF csr_wf_mono[OF wfS]]
  have kn: "k < n_brow" using Suc.prems by simp
  have ab: "Sp ! k \<le> Sp ! (k + 1)" "Sp ! (k + 1) \<le> length Sxk" "Sp ! 0 \<le> Sp ! k"
    using monoS[of "k + 1" k] monoS[of n_brow "k + 1"] monoS[of k 0] kn lenS len by simp_all
  have Scol: "\<forall>p\<in>{Sp ! k..<Sp ! (k + 1)}. Sj ! p < n_bcol"
    using csr_wf_entry[OF wfS kn] by blast
  have Bcol: "\<forall>jj\<in>{Ap ! k..<Ap ! (k + 1)}. \<forall>kk\<in>{Bp ! (Aj ! jj)..<Bp ! (Aj ! jj + 1)}. Bj ! kk < n_bcol"
  proof (intro ballI)
    fix jj kk assume jj: "jj \<in> {Ap ! k..<Ap ! (k + 1)}"
      and kk: "kk \<in> {Bp ! (Aj ! jj)..<Bp ! (Aj ! jj + 1)}"
    have "Aj ! jj < n_mid" using csr_wf_entry[OF wfA kn jj] .
    from csr_wf_entry[OF wfB this kk] show "Bj ! kk < n_bcol" .
  qed
  from mat_mult_row_step[OF ab(1,2) Scol Bcol, of mul Ax Bx]
  obtain Sx' where
    st: "mat_mult_row mul Ap Aj Ax Bp Bj Bx Sp Sj k (replicate n_bcol None, Sxk)
           = (replicate n_bcol None, Sx')"
    and len': "length Sx' = length Sxk"
    and val: "\<And>p. p < length Sxk \<Longrightarrow> Sx' ! p =
              (if p \<in> {Sp ! k..<Sp ! (k + 1)}
               then accumulated mul Ap Aj Ax Bp Bj Bx Sp Sj k p (Sxk ! p) else Sxk ! p)"
    by blast
  have "fold (mat_mult_row mul Ap Aj Ax Bp Bj Bx Sp Sj) [0..<Suc k] (replicate n_bcol None, Sx)
          = (replicate n_bcol None, Sx')"
    using f st by simp
  moreover have "length Sx' = length Sx" using len len' by simp
  moreover have "\<forall>i<Suc k. \<forall>p\<in>{Sp ! i..<Sp ! (i + 1)}.
               Sx' ! p = accumulated mul Ap Aj Ax Bp Bj Bx Sp Sj i p (Sx ! p)"
  proof (intro allI impI ballI)
    fix i p assume i: "i < Suc k" and p: "p \<in> {Sp ! i..<Sp ! (i + 1)}"
    show "Sx' ! p = accumulated mul Ap Aj Ax Bp Bj Bx Sp Sj i p (Sx ! p)"
    proof (cases "i = k")
      case True
      have pl: "p < length Sxk" using p ab(2) True by simp
      have "p \<notin> {Sp ! 0..<Sp ! k}" using p True by simp
      then have "Sxk ! p = Sx ! p" using rest pl len by simp
      then show ?thesis using val[OF pl] p True by simp
    next
      case False
      then have ik: "i < k" using i by simp
      have "Sp ! (i + 1) \<le> Sp ! k" using monoS[of k "i + 1"] ik kn by simp
      then have notin: "p \<notin> {Sp ! k..<Sp ! (k + 1)}" using p by simp
      have pl: "p < length Sxk" using p \<open>Sp ! (i + 1) \<le> Sp ! k\<close> ab by simp
      have "Sx' ! p = Sxk ! p" using val[OF pl] notin by (simp only: if_False)
      then show ?thesis using rows[OF ik p] by simp
    qed
  qed
  moreover have "\<forall>p<length Sx. p \<notin> {Sp ! 0..<Sp ! Suc k} \<longrightarrow> Sx' ! p = Sx ! p"
  proof (intro allI impI)
    fix p assume pl: "p < length Sx" and p: "p \<notin> {Sp ! 0..<Sp ! Suc k}"
    have n1: "p \<notin> {Sp ! k..<Sp ! (k + 1)}" using p ab by auto
    have n2: "p \<notin> {Sp ! 0..<Sp ! k}" using p ab by auto
    have "Sx' ! p = Sxk ! p" using val[of p] pl len n1 by (simp only: if_False)
    then show "Sx' ! p = Sx ! p" using rest[OF pl n2] by simp
  qed
  ultimately show ?case by blast
qed

lemma distinct_last_of_column:
  assumes "distinct (cols Sp Sj i)" "p \<in> {Sp ! i..<Sp ! (i + 1)}"
  shows "last_of_column Sp Sj i p"
proof -
  have inj: "inj_on (\<lambda>jj. Sj ! jj) (set [Sp ! i..<Sp ! (i + 1)])"
    using assms(1) by (simp add: cols_def distinct_map)
  show ?thesis
    unfolding last_of_column_def
  proof
    fix q assume q: "q \<in> {p + 1..<Sp ! (i + 1)}"
    then have "q \<in> set [Sp ! i..<Sp ! (i + 1)]" "p \<in> set [Sp ! i..<Sp ! (i + 1)]" "q \<noteq> p"
      using assms(2) by auto
    then show "Sj ! q \<noteq> Sj ! p" using inj by (auto dest: inj_onD)
  qed
qed

lemma foldl_plus_sum_list:
  fixes s :: "'c::monoid_add"
  shows "foldl (+) s xs = s + sum_list xs"
  by (induction xs arbitrary: s) (simp_all add: add.assoc)

text \<open>
  Claim C3. The kernel changes nothing but the value array \<open>Sx\<close>, whose length it keeps.
  For every block row \<open>i\<close> and every stored position \<open>p\<close> of row \<open>i\<close> of \<open>S\<close>, the block at \<open>p\<close>
  receives exactly the products \<open>A[i,k] * B[k,j]\<close>, \<open>j = Sj[p]\<close>, of all pairs of stored
  positions of \<open>A\<close> and \<open>B\<close> that share the intermediate index \<open>k\<close>: they are added to the
  prior value of the block one after the other, in loop order, and nothing else is added.
  The sum is that of the block type with no law assumed, so the statement is the same
  for a rounding addition; for an exact addition it is the prior value plus the sum of
  the products (lemma \<open>foldl_plus_sum_list\<close>). This holds for every position of a row of \<open>S\<close>
  that stores no column twice; when a row stores a column more than once, the last stored
  copy receives the products and the earlier copies are left alone, so the block \<open>(i, j)\<close>
  as a whole receives them once. Hence a block that is zero on entry ends as the sum of
  the products restricted to the pattern, a block with no product path keeps its value,
  and so does every position outside the pattern. Pairs whose column is not stored in row
  \<open>i\<close> of \<open>S\<close> find \<open>NULL\<close> in the lookup table and are skipped.
\<close>

theorem incomplete_mat_mult_bsr_adds_products:
  fixes Sx :: "'c::{plus,zero} list"
  assumes wfS: "csr_wf n_brow n_bcol Sp Sj" and wfA: "csr_wf n_brow n_mid Ap Aj"
    and wfB: "csr_wf n_mid n_bcol Bp Bj"
    and lens: "Ap ! n_brow \<le> length Ax" "Bp ! n_mid \<le> length Bx" "Sp ! n_brow \<le> length Sx"
    and res: "incomplete_mat_mult_bsr mul Ap Aj Ax Bp Bj Bx Sp Sj Sx n_brow n_bcol = Sx'"
  shows "length Sx' = length Sx \<and>
         (\<forall>i<n_brow. \<forall>p\<in>{Sp ! i..<Sp ! (i + 1)}.
            Sx' ! p = (if last_of_column Sp Sj i p
                       then foldl (+) (Sx ! p) (products mul Ap Aj Ax Bp Bj Bx i (Sj ! p))
                       else Sx ! p)) \<and>
         (\<forall>i<n_brow. distinct (cols Sp Sj i) \<longrightarrow>
            (\<forall>p\<in>{Sp ! i..<Sp ! (i + 1)}.
               Sx' ! p = foldl (+) (Sx ! p) (products mul Ap Aj Ax Bp Bj Bx i (Sj ! p)))) \<and>
         (\<forall>i<n_brow. \<forall>p\<in>{Sp ! i..<Sp ! (i + 1)}. Sx ! p = 0 \<and> last_of_column Sp Sj i p \<longrightarrow>
            Sx' ! p = foldl (+) 0 (products mul Ap Aj Ax Bp Bj Bx i (Sj ! p))) \<and>
         (\<forall>i<n_brow. \<forall>p\<in>{Sp ! i..<Sp ! (i + 1)}. products mul Ap Aj Ax Bp Bj Bx i (Sj ! p) = [] \<longrightarrow>
            Sx' ! p = Sx ! p) \<and>
         (\<forall>p<length Sx. p \<notin> {Sp ! 0..<Sp ! n_brow} \<longrightarrow> Sx' ! p = Sx ! p)"
proof -
  from mat_mult_fold[OF wfS wfA wfB lens(3) le_refl, of mul Ax Bx] res
  have len: "length Sx' = length Sx"
    and rows: "\<And>i p. i < n_brow \<Longrightarrow> p \<in> {Sp ! i..<Sp ! (i + 1)} \<Longrightarrow>
                 Sx' ! p = accumulated mul Ap Aj Ax Bp Bj Bx Sp Sj i p (Sx ! p)"
    and rest: "\<forall>p<length Sx. p \<notin> {Sp ! 0..<Sp ! n_brow} \<longrightarrow> Sx' ! p = Sx ! p"
    by (auto simp: incomplete_mat_mult_bsr_def)
  show ?thesis
    using len rest by (simp add: rows accumulated_def distinct_last_of_column)
qed


text \<open>
  The theorem at \<open>A = [[1, 2], [0, 3]]\<close>, \<open>B = [[10, 20], [0, 30]]\<close> and the pattern
  \<open>{(0,1), (1,0), (1,1)}\<close> with 1 by 1 blocks.
\<close>

theorem incomplete_mat_mult_bsr_adds_products_witness:
  "incomplete_mat_mult_bsr (*) [0, 2, 3] [0, 1, 1] [1, 2, 3 :: int] [0, 2, 3] [0, 1, 1] [10, 20, 30 :: int]
      [0, 1, 3] [1, 0, 1] [100, 200, 300] 2 2 = [180, 200, 390]
   \<and> last_of_column [0, 1, 3] [1, 0, 1] 0 0
   \<and> [180, 200, 390] ! 0 =
       foldl (+) ([100, 200, 300] ! 0)
         (products (*) [0, 2, 3] [0, 1, 1] [1, 2, 3 :: int] [0, 2, 3] [0, 1, 1] [10, 20, 30 :: int] 0
                   ([1, 0, 1] ! 0))"
proof -
  have wfS: "csr_wf 2 2 [0, 1, 3] [1, 0, 1]" by code_simp
  have wfA: "csr_wf 2 2 [0, 2, 3] [0, 1, 1]" by code_simp
  have l1: "[0, 2, 3] ! 2 \<le> length [1, 2, 3 :: int]" by simp
  have l2: "[0, 2, 3] ! 2 \<le> length [10, 20, 30 :: int]" by simp
  have l3: "[0, 1, 3] ! 2 \<le> length [100, 200, 300 :: int]" by simp
  have res: "incomplete_mat_mult_bsr (*) [0, 2, 3] [0, 1, 1] [1, 2, 3 :: int] [0, 2, 3] [0, 1, 1]
               [10, 20, 30 :: int] [0, 1, 3] [1, 0, 1] [100, 200, 300] 2 2 = [180, 200, 390]"
    by code_simp
  have lst: "last_of_column [0, 1, 3] [1, 0, 1] 0 0" by code_simp
  have z: "0 < (2 :: nat)" by simp
  have p: "(0 :: nat) \<in> {[0, 1, 3 :: nat] ! 0..<[0, 1, 3] ! (0 + 1)}" by simp
  note t = incomplete_mat_mult_bsr_adds_products[OF wfS wfA wfA l1 l2 l3 res]
  note a = conjunct1[OF conjunct2[OF t], THEN spec, of 0, THEN mp, OF z, THEN bspec, OF p]
  from a lst res show ?thesis by simp
qed

text \<open>
  The same statement in the arithmetic of \<open>double\<close>, for 1 by 1 blocks: one row of \<open>A\<close> with
  two entries 1, two rows of \<open>B\<close> with the entry 1 in column 0, and the stored block
  \<open>S[0,0] = 10\<^sup>1\<^sup>6\<close>. Each of the two additions \<open>10\<^sup>1\<^sup>6 + 1\<close> rounds back to \<open>10\<^sup>1\<^sup>6\<close>; this is what
  the kernel leaves and what the products added one after the other give.
\<close>

lemma incomplete_mat_mult_double_example:
  "incomplete_mat_mult_bsr (*) [0, 2] [0, 1] [Double 1, Double 1] [0, 1, 2] [0, 0] [Double 1, Double 1]
     [0, 1] [0] [Double 10000000000000000] 1 1 = [Double 10000000000000000]
   \<and> products (*) [0, 2] [0, 1] [Double 1, Double 1] [0, 1, 2] [0, 0] [Double 1, Double 1] 0 0
     = [Double 1, Double 1]
   \<and> foldl (+) (Double 10000000000000000) [Double 1, Double 1] = Double 10000000000000000"
proof -
  have u: "[0..<2 :: nat] = [0, 1]" "[Suc 0..<2] = [Suc 0]" "[1..<2 :: nat] = [1]"
    by (simp_all add: upt_rec)
  note d = plus_double_def times_double_def double_add_def double_mul_def round_double_examples
  have k: "incomplete_mat_mult_bsr (*) [0, 2] [0, 1] [Double 1, Double 1] [0, 1, 2] [0, 0]
     [Double 1, Double 1] [0, 1] [0] [Double 10000000000000000] 1 1 = [Double 10000000000000000]"
    by (simp add: incomplete_mat_mult_bsr_def mat_mult_row_def set_lookup_def clear_lookup_def
        multiply_row_def accumulate_def d u Let_def)
  have p: "products (*) [0, 2] [0, 1] [Double 1, Double 1] [0, 1, 2] [0, 0] [Double 1, Double 1] 0 0
     = [Double 1, Double 1]"
    by (simp add: products_def d u)
  have f: "foldl (+) (Double 10000000000000000) [Double 1, Double 1] = Double 10000000000000000"
    by (simp add: d)
  show ?thesis using k p f by blast
qed

section \<open>Tentative prolongator: proofs\<close>

lemma euclidean_norm_example: "euclidean_norm [0, 1] \<le> 1 / 16 * euclidean_norm [99, 1]"
proof -
  have "(16 :: real)\<^sup>2 \<le> 9802" by simp
  then have "16 \<le> sqrt 9802" by (rule real_le_rsqrt)
  then show ?thesis by (simp add: euclidean_norm_def)
qed

text \<open>
  Claim C2. The norm of a column is computed as \<open>sqrt\<close> of the sum of \<open>mynorm\<close> of its
  entries, that is of their magnitudes and not of their squares. For one aggregate with
  one fine node, one candidate and \<open>B = [4]\<close>: \<open>norm_j = sqrt 4 = 2\<close>, the column of \<open>P\<close> becomes
  \<open>4 * (1 / 2) = 2\<close> and \<open>R = 2\<close>. The \<open>R\<close> diagonal is nonzero, \<open>P * R = 4\<close> reconstructs \<open>B\<close>, but the
  column of \<open>P\<close> has the inner product \<open>2 * 2 = 4\<close> with itself, not 1.
\<close>

theorem fit_candidates_column_not_unit:
  "fit_candidates_common mynorm dot_real 1 1 1 1 [0, 1] [0] [9] [4] [7] (1 / 10) = Some ([2], [2])
   \<and> dot_real 2 2 \<noteq> 1"
proof -
  have c: "copy_blocks 1 1 [0, 1] [0] [4] [9] = [4]"
    by (simp add: copy_blocks_def copy_block_def)
  have f: "fit_column mynorm dot_real (1 / 10) 1 0 1 0 0 ([4], [0]) = Some ([2], [2])"
    by (simp add: fit_column_def column_norm_def mynorm_def orthogonalize_def
        col_norm_sum.simps col_scale.simps)
  have a: "fit_aggregate mynorm dot_real (1 / 10) 1 1 [0, 1] 0 (Some ([4], [0])) = Some ([2], [2])"
    by (simp add: fit_aggregate_def f[unfolded One_nat_def])
  have "fit_candidates_common mynorm dot_real 1 1 1 1 [0, 1] [0] [9] [4] [7] (1 / 10) = Some ([2], [2])"
    by (simp add: fit_candidates_common_def c[unfolded One_nat_def] a[unfolded One_nat_def])
  then show ?thesis by (simp add: dot_real_def)
qed

text \<open>
  Claim C8. The threshold test and the scaling use the same \<open>norm_j\<close>, the square root of the
  sum of the magnitudes, where the comment at line 413 and the claim speak of the norm of
  the column. One aggregate with two fine nodes and two candidates, \<open>B = [[1, 99], [0, 1]]\<close>,
  \<open>tol = 1/16\<close>: column 0 is kept as it is. For column 1 the kernel computes
  \<open>norm_j = sqrt (99 + 1) = 10\<close> before and \<open>sqrt (0 + 1) = 1\<close> after the orthogonalization, finds
  \<open>1 > 10/16\<close> and keeps the column \<open>(0, 1)\<close> with \<open>R(1,1) = 1\<close>. The norm of the column is
  \<open>sqrt 9802\<close> before and 1 after the orthogonalization, and \<open>1 \<le> sqrt 9802 / 16\<close>: by the
  claim the column is to be set to zero and \<open>R(1,1)\<close> to 0. Every operation of this run is
  exact in binary floating point.
\<close>

theorem fit_candidates_threshold_not_on_norm:
  "fit_candidates_common mynorm dot_real 2 1 1 2 [0, 2] [0, 1] [9, 9, 9, 9] [1, 99, 0, 1] [7, 7, 7, 7] (1 / 16)
     = Some ([1, 0, 0, 1], [1, 99, 0, 1])
   \<and> orthogonalize dot_real 2 0 4 0 1 ([1, 99, 0, 1], [1, 0, 0, 0]) = ([1, 0, 0, 1], [1, 99, 0, 0])
   \<and> block_column [1, 99, 0, 1] 0 4 2 1 = [99, 1]
   \<and> block_column [1, 0, 0, 1] 0 4 2 1 = [0, 1]
   \<and> euclidean_norm [0, 1] \<le> 1 / 16 * euclidean_norm [99, 1]"
proof -
  have c: "copy_blocks 1 2 [0, 2] [0, 1] [1, 99, 0, 1] [9, 9, 9, 9] = [1, 99, 0, 1]"
    by (simp add: copy_blocks_def copy_block_def numeral_2_eq_2)
  have f0: "fit_column mynorm dot_real (1 / 16) 2 0 4 0 0 ([1, 99, 0, 1], [0, 0, 0, 0])
              = Some ([1, 99, 0, 1], [1, 0, 0, 0])"
    by (simp add: fit_column_def column_norm_def mynorm_def orthogonalize_def
        col_norm_sum.simps col_scale.simps)
  have o: "orthogonalize dot_real 2 0 4 0 1 ([1, 99, 0, 1], [1, 0, 0, 0]) = ([1, 0, 0, 1], [1, 99, 0, 0])"
    by (simp add: orthogonalize_def orth_step_def col_dot.simps col_sub.simps dot_real_def)
  have n1: "column_norm mynorm [1, 99, 0, 1] 0 4 2 1 = Some 10"
  proof -
    have "sqrt 100 = 10" by (rule real_sqrt_unique) simp_all
    then show ?thesis
      by (simp add: column_norm_def col_norm_sum.simps mynorm_def)
  qed
  have n2: "column_norm mynorm [1, 0, 0, 1] 0 4 2 1 = Some 1"
    by (simp add: column_norm_def col_norm_sum.simps mynorm_def)
  have f1: "fit_column mynorm dot_real (1 / 16) 2 0 4 0 1 ([1, 99, 0, 1], [1, 0, 0, 0])
              = Some ([1, 0, 0, 1], [1, 99, 0, 1])"
    by (simp add: fit_column_def n1[unfolded One_nat_def] n2[unfolded One_nat_def]
        o[unfolded One_nat_def] col_scale.simps)
  have a: "fit_aggregate mynorm dot_real (1 / 16) 1 2 [0, 2] 0 (Some ([1, 99, 0, 1], [0, 0, 0, 0]))
             = Some ([1, 0, 0, 1], [1, 99, 0, 1])"
  proof -
    have u: "[0..<2 :: nat] = [0, 1]" by (simp add: upt_rec)
    show ?thesis
      by (simp add: fit_aggregate_def u f0[unfolded One_nat_def] f1[unfolded One_nat_def])
  qed
  have z: "fold (\<lambda>i R. R[i := 0]) [0..<4] [7, 7, 7, 7 :: real] = [0, 0, 0, 0]"
    by (simp add: upt_rec)
  have r: "fit_candidates_common mynorm dot_real 2 1 1 2 [0, 2] [0, 1] [9, 9, 9, 9] [1, 99, 0, 1]
             [7, 7, 7, 7] (1 / 16) = Some ([1, 0, 0, 1], [1, 99, 0, 1])"
    by (simp add: fit_candidates_common_def c[unfolded One_nat_def] z a[unfolded One_nat_def])
  have b: "block_column [1, 99, 0, 1] 0 4 2 1 = [99, 1]" "block_column [1, 0, 0, 1] 0 4 2 1 = [0, 1]"
    by (simp_all add: block_column_def upt_rec)
  show ?thesis using r o b euclidean_norm_example by blast
qed

section \<open>Constraint correction: proofs\<close>

lemma gemm_AB_nth:
  "e < m * p \<Longrightarrow> gemm_AB m n p A offA B offB ! e =
     (\<Sum>k<n. A ! (offA + (e div p) * n + k) * B ! (offB + k * p + (e mod p)))"
  by (simp add: gemm_AB_def)

lemma gemm_ABt_nth:
  "e < m * p \<Longrightarrow> gemm_ABt m n p A offA B offB ! e =
     (\<Sum>k<n. A ! (offA + (e div p) * n + k) * B ! (offB + (e mod p) * n + k))"
  by (simp add: gemm_ABt_def)

lemma update_nth:
  fixes Bt :: "'a::comm_ring_1 list"
  assumes r: "r < RowsPerBlock" and c: "c < ColsPerBlock"
  shows "gemm_AB RowsPerBlock NullDim ColsPerBlock UB (i * (NullDim * RowsPerBlock))
           (gemm_ABt NullDim NullDim ColsPerBlock BtBinv (i * (NullDim * NullDim)) Bt
              (Sj ! j * (NullDim * ColsPerBlock))) 0 ! (r * ColsPerBlock + c)
         = update_entry RowsPerBlock ColsPerBlock NullDim Bt UB BtBinv Sj i j r c"
proof -
  have e: "r * ColsPerBlock + c < RowsPerBlock * ColsPerBlock"
  proof -
    have "r * ColsPerBlock + c < (r + 1) * ColsPerBlock" using c by simp
    also have "\<dots> \<le> RowsPerBlock * ColsPerBlock" using r by (intro mult_le_mono1) simp
    finally show ?thesis .
  qed
  have dm: "(r * ColsPerBlock + c) div ColsPerBlock = r" "(r * ColsPerBlock + c) mod ColsPerBlock = c"
    using c by simp_all
  have inner: "gemm_ABt NullDim NullDim ColsPerBlock BtBinv (i * (NullDim * NullDim)) Bt
              (Sj ! j * (NullDim * ColsPerBlock)) ! (a * ColsPerBlock + c)
        = (\<Sum>b<NullDim. block_entry NullDim NullDim BtBinv i a b *
                       block_entry ColsPerBlock NullDim Bt (Sj ! j) c b)" if a: "a < NullDim" for a
  proof -
    have e': "a * ColsPerBlock + c < NullDim * ColsPerBlock"
    proof -
      have "a * ColsPerBlock + c < (a + 1) * ColsPerBlock" using c by simp
      also have "\<dots> \<le> NullDim * ColsPerBlock" using a by (intro mult_le_mono1) simp
      finally show ?thesis .
    qed
    have dm': "(a * ColsPerBlock + c) div ColsPerBlock = a" "(a * ColsPerBlock + c) mod ColsPerBlock = c"
      using c by simp_all
    have comm: "NullDim * ColsPerBlock = ColsPerBlock * NullDim" by (rule mult.commute)
    show ?thesis
      by (simp only: gemm_ABt_nth[OF e'] dm' block_entry_def comm)
  qed
  have comm: "NullDim * RowsPerBlock = RowsPerBlock * NullDim" by (rule mult.commute)
  show ?thesis
    unfolding gemm_AB_nth[OF e] update_entry_def dm
    by (rule sum.cong[OF refl]) (simp add: inner block_entry_def comm)
qed

lemma fold_subtract_block:
  assumes "off + n \<le> length Sx"
  shows "length (fold (\<lambda>k Sx. Sx[off + k := sub (Sx ! (off + k)) (U ! k)]) [0..<n] Sx) = length Sx \<and>
         (\<forall>q<length Sx. fold (\<lambda>k Sx. Sx[off + k := sub (Sx ! (off + k)) (U ! k)]) [0..<n] Sx ! q =
            (if off \<le> q \<and> q < off + n then sub (Sx ! q) (U ! (q - off)) else Sx ! q))"
  using assms
proof (induction n)
  case 0
  then show ?case by auto
next
  case (Suc n)
  then show ?case by (auto simp: nth_list_update)
qed


lemma correct_block_eq:
  "correct_block sub gemmC gemmU RowsPerBlock ColsPerBlock NullDim Bt UB BtBinv Sj i j Sx =
     fold (\<lambda>k Sx. Sx[j * (RowsPerBlock * ColsPerBlock) + k :=
                       sub (Sx ! (j * (RowsPerBlock * ColsPerBlock) + k))
                         (update_block gemmC gemmU RowsPerBlock ColsPerBlock NullDim Bt UB BtBinv Sj i j ! k)])
          [0..<RowsPerBlock * ColsPerBlock] Sx"
  by (simp add: correct_block_def update_block_def Let_def)

lemma update_block_nth:
  fixes Bt :: "'a::comm_ring_1 list"
  assumes "r < RowsPerBlock" "c < ColsPerBlock"
  shows "update_block gemm_ABt gemm_AB RowsPerBlock ColsPerBlock NullDim Bt UB BtBinv Sj i j
           ! (r * ColsPerBlock + c)
         = update_entry RowsPerBlock ColsPerBlock NullDim Bt UB BtBinv Sj i j r c"
  unfolding update_block_def by (rule update_nth[OF assms])

lemma correct_row_aux:
  assumes f: "\<And>j Sx. f j Sx = fold (\<lambda>k Sx. Sx[j * BS + k := sub (Sx ! (j * BS + k)) (U j ! k)]) [0..<BS] Sx"
    and "a \<le> b" "b * BS \<le> length Sx"
  shows "length (fold f [a..<b] Sx) = length Sx \<and>
         (\<forall>j\<in>{a..<b}. \<forall>e<BS. fold f [a..<b] Sx ! (j * BS + e) = sub (Sx ! (j * BS + e)) (U j ! e)) \<and>
         (\<forall>q<length Sx. q \<notin> {a * BS..<b * BS} \<longrightarrow> fold f [a..<b] Sx ! q = Sx ! q)"
  using assms(2,3)
proof (induction b)
  case 0
  then show ?case by simp
next
  case (Suc b)
  show ?case
  proof (cases "a = Suc b")
    case True
    then show ?thesis by simp
  next
    case False
    then have ab: "a \<le> b" using Suc.prems by simp
    have SucB: "Suc b * BS = b * BS + BS" by simp
    have bl: "b * BS \<le> length Sx" "b * BS + BS \<le> length Sx" using Suc.prems by simp_all
    let ?Sb = "fold f [a..<b] Sx"
    from Suc.IH[OF ab bl(1)]
    have len: "length ?Sb = length Sx"
      and rows: "\<And>j e. j \<in> {a..<b} \<Longrightarrow> e < BS \<Longrightarrow> ?Sb ! (j * BS + e) = sub (Sx ! (j * BS + e)) (U j ! e)"
      and rest: "\<And>q. q < length Sx \<Longrightarrow> q \<notin> {a * BS..<b * BS} \<Longrightarrow> ?Sb ! q = Sx ! q"
      by auto
    have eq: "fold f [a..<Suc b] Sx = f b ?Sb" using ab by simp
    have "b * BS + BS \<le> length ?Sb" using bl len by simp
    from fold_subtract_block[OF this, of sub "U b"]
    have len': "length (f b ?Sb) = length ?Sb"
      and val: "\<And>q. q < length ?Sb \<Longrightarrow> f b ?Sb ! q =
            (if b * BS \<le> q \<and> q < b * BS + BS then sub (?Sb ! q) (U b ! (q - b * BS)) else ?Sb ! q)"
      unfolding f by auto
    have aB: "a * BS \<le> b * BS" using ab by (intro mult_le_mono1)
    have "\<forall>j\<in>{a..<Suc b}. \<forall>e<BS. f b ?Sb ! (j * BS + e) = sub (Sx ! (j * BS + e)) (U j ! e)"
    proof (intro ballI allI impI)
      fix j e assume j: "j \<in> {a..<Suc b}" and e: "e < BS"
      show "f b ?Sb ! (j * BS + e) = sub (Sx ! (j * BS + e)) (U j ! e)"
      proof (cases "j = b")
        case True
        have ql: "b * BS + e < length ?Sb" using e bl len by simp
        have "b * BS + e \<notin> {a * BS..<b * BS}" by simp
        then have "?Sb ! (b * BS + e) = Sx ! (b * BS + e)" using rest ql len by simp
        then show ?thesis using val[OF ql] e True by simp
      next
        case False
        then have jb: "j \<in> {a..<b}" using j by simp
        then have "Suc j \<le> b" by simp
        then have "Suc j * BS \<le> b * BS" by (intro mult_le_mono1)
        then have lt: "j * BS + e < b * BS" using e by simp
        then have ql: "j * BS + e < length ?Sb" using bl len by simp
        show ?thesis using val[OF ql] lt rows[OF jb e] by simp
      qed
    qed
    moreover have "\<forall>q<length Sx. q \<notin> {a * BS..<Suc b * BS} \<longrightarrow> f b ?Sb ! q = Sx ! q"
    proof (intro allI impI)
      fix q assume ql: "q < length Sx" and q: "q \<notin> {a * BS..<Suc b * BS}"
      have q': "\<not> (a * BS \<le> q \<and> q < b * BS + BS)"
        using q unfolding SucB atLeastLessThan_iff .
      have n1: "\<not> (b * BS \<le> q \<and> q < b * BS + BS)" using q' aB by linarith
      have n2: "q \<notin> {a * BS..<b * BS}" unfolding atLeastLessThan_iff using q' by linarith
      show "f b ?Sb ! q = Sx ! q" using val[of q] ql len n1 rest[OF ql n2] by simp
    qed
    ultimately show ?thesis unfolding eq using len len' by simp
  qed
qed

lemma correct_row:
  assumes "a \<le> b" "b * (RowsPerBlock * ColsPerBlock) \<le> length Sx"
  shows "length (fold (correct_block sub gemmC gemmU RowsPerBlock ColsPerBlock NullDim Bt UB BtBinv Sj i) [a..<b] Sx)
           = length Sx \<and>
         (\<forall>j\<in>{a..<b}. \<forall>e<RowsPerBlock * ColsPerBlock.
            fold (correct_block sub gemmC gemmU RowsPerBlock ColsPerBlock NullDim Bt UB BtBinv Sj i) [a..<b] Sx
              ! (j * (RowsPerBlock * ColsPerBlock) + e)
            = sub (Sx ! (j * (RowsPerBlock * ColsPerBlock) + e))
                (update_block gemmC gemmU RowsPerBlock ColsPerBlock NullDim Bt UB BtBinv Sj i j ! e)) \<and>
         (\<forall>q<length Sx. q \<notin> {a * (RowsPerBlock * ColsPerBlock)..<b * (RowsPerBlock * ColsPerBlock)} \<longrightarrow>
            fold (correct_block sub gemmC gemmU RowsPerBlock ColsPerBlock NullDim Bt UB BtBinv Sj i) [a..<b] Sx ! q
            = Sx ! q)"
  by (rule correct_row_aux[OF correct_block_eq assms])


lemma sum_list_sum_swap:
  fixes f :: "'b \<Rightarrow> 'c \<Rightarrow> 'a::comm_ring_1"
  shows "(\<Sum>j\<leftarrow>js. \<Sum>c\<in>A. f j c) = (\<Sum>c\<in>A. \<Sum>j\<leftarrow>js. f j c)"
  by (induction js) (simp_all add: sum.distrib)

lemma sum_list_sum_const:
  fixes f :: "'b \<Rightarrow> 'c \<Rightarrow> 'a::comm_ring_1"
  shows "(\<Sum>j\<leftarrow>js. \<Sum>c\<in>A. k * f j c) = k * (\<Sum>j\<leftarrow>js. \<Sum>c\<in>A. f j c)"
  by (simp add: sum_distrib_left[symmetric] sum_list_const_mult)

lemma projection_sum:
  fixes U :: "nat \<Rightarrow> 'a::comm_ring_1"
  assumes inv: "\<And>a'. a' < n \<Longrightarrow>
      (\<Sum>b<n. G a' b * (\<Sum>j\<leftarrow>js. \<Sum>c<p. Xm j c b * Bm j c a)) = (if a' = a then 1 else 0)"
    and a: "a < n"
  shows "(\<Sum>j\<leftarrow>js. \<Sum>c<p. (\<Sum>a'<n. U a' * (\<Sum>b<n. G a' b * Xm j c b)) * Bm j c a) = U a"
proof -
  have "(\<Sum>j\<leftarrow>js. \<Sum>c<p. (\<Sum>a'<n. U a' * (\<Sum>b<n. G a' b * Xm j c b)) * Bm j c a)
      = (\<Sum>j\<leftarrow>js. \<Sum>c<p. \<Sum>a'<n. \<Sum>b<n. U a' * (G a' b * (Xm j c b * Bm j c a)))"
    by (simp add: sum_distrib_left sum_distrib_right mult.assoc)
  also have "\<dots> = (\<Sum>j\<leftarrow>js. \<Sum>a'<n. \<Sum>c<p. \<Sum>b<n. U a' * (G a' b * (Xm j c b * Bm j c a)))"
    by (subst sum.swap) (rule refl)
  also have "\<dots> = (\<Sum>j\<leftarrow>js. \<Sum>a'<n. \<Sum>b<n. \<Sum>c<p. U a' * (G a' b * (Xm j c b * Bm j c a)))"
    by (subst sum.swap[of _ "{..<n}" "{..<p}"]) (rule refl)
  also have "\<dots> = (\<Sum>a'<n. \<Sum>b<n. \<Sum>j\<leftarrow>js. \<Sum>c<p. U a' * (G a' b * (Xm j c b * Bm j c a)))"
    by (simp add: sum_list_sum_swap)
  also have "\<dots> = (\<Sum>a'<n. \<Sum>b<n. U a' * (G a' b * (\<Sum>j\<leftarrow>js. \<Sum>c<p. Xm j c b * Bm j c a)))"
    by (simp only: sum_list_sum_const)
  also have "\<dots> = (\<Sum>a'<n. U a' * (\<Sum>b<n. G a' b * (\<Sum>j\<leftarrow>js. \<Sum>c<p. Xm j c b * Bm j c a)))"
    by (simp only: sum_distrib_left)
  also have "\<dots> = (\<Sum>a'<n. U a' * (if a' = a then 1 else 0))"
    by (rule sum.cong[OF refl]) (simp add: inv)
  also have "\<dots> = (\<Sum>a'<n. if a' = a then U a' else 0)"
    by (rule sum.cong[OF refl]) simp
  also have "\<dots> = U a" using a by simp
  finally show ?thesis .
qed


lemma constraints_fold:
  assumes mono: "\<forall>i<n. Sp ! i \<le> Sp ! (i + 1)"
    and lenS: "Sp ! n * (RowsPerBlock * ColsPerBlock) \<le> length Sx" and k: "k \<le> n"
    and row: "row = constraint_row sub gemmC gemmU RowsPerBlock ColsPerBlock NullDim Bt UB BtBinv Sp Sj"
  shows "length (fold row [0..<k] Sx) = length Sx \<and>
         (\<forall>i<k. \<forall>j\<in>{Sp ! i..<Sp ! (i + 1)}. \<forall>e<RowsPerBlock * ColsPerBlock.
            fold row [0..<k] Sx ! (j * (RowsPerBlock * ColsPerBlock) + e)
            = sub (Sx ! (j * (RowsPerBlock * ColsPerBlock) + e))
                (update_block gemmC gemmU RowsPerBlock ColsPerBlock NullDim Bt UB BtBinv Sj i j ! e)) \<and>
         (\<forall>q<length Sx. q \<notin> {Sp ! 0 * (RowsPerBlock * ColsPerBlock)..<
                                Sp ! k * (RowsPerBlock * ColsPerBlock)} \<longrightarrow>
            fold row [0..<k] Sx ! q = Sx ! q)"
  using k
proof (induction k)
  case 0
  then show ?case by simp
next
  case (Suc k)
  define BS where "BS = RowsPerBlock * ColsPerBlock"
  let ?U = "\<lambda>i j. update_block gemmC gemmU RowsPerBlock ColsPerBlock NullDim Bt UB BtBinv Sj i j"
  let ?Sk = "fold row [0..<k] Sx"
  from Suc have len: "length ?Sk = length Sx"
    and rows: "\<And>i j e. i < k \<Longrightarrow> j \<in> {Sp ! i..<Sp ! (i + 1)} \<Longrightarrow> e < BS \<Longrightarrow>
                 ?Sk ! (j * BS + e) = sub (Sx ! (j * BS + e)) (?U i j ! e)"
    and rest: "\<And>q. q < length Sx \<Longrightarrow> q \<notin> {Sp ! 0 * BS..<Sp ! k * BS} \<Longrightarrow> ?Sk ! q = Sx ! q"
    unfolding BS_def by auto
  note monoS = row_pointer_mono[OF mono]
  have kn: "k < n" using Suc.prems by simp
  have ab: "Sp ! k \<le> Sp ! (k + 1)" "Sp ! (k + 1) \<le> Sp ! n" "Sp ! 0 \<le> Sp ! k"
    using monoS[of "k + 1" k] monoS[of n "k + 1"] monoS[of k 0] kn by simp_all
  have abB: "Sp ! k * BS \<le> Sp ! (k + 1) * BS" "Sp ! (k + 1) * BS \<le> Sp ! n * BS"
    "Sp ! 0 * BS \<le> Sp ! k * BS"
    using ab by (auto intro: mult_le_mono1)
  have lenS': "Sp ! n * BS \<le> length Sx" using lenS unfolding BS_def .
  have bl: "Sp ! (k + 1) * BS \<le> length ?Sk" using abB(2) lenS' len by linarith
  from correct_row[OF ab(1) bl[unfolded BS_def], of sub gemmC gemmU NullDim Bt UB BtBinv Sj k]
  have len': "length (row k ?Sk) = length ?Sk"
    and new: "\<And>j e. j \<in> {Sp ! k..<Sp ! (k + 1)} \<Longrightarrow> e < BS \<Longrightarrow>
                row k ?Sk ! (j * BS + e) = sub (?Sk ! (j * BS + e)) (?U k j ! e)"
    and old: "\<And>q. q < length ?Sk \<Longrightarrow> q \<notin> {Sp ! k * BS..<Sp ! (k + 1) * BS} \<Longrightarrow>
                row k ?Sk ! q = ?Sk ! q"
    unfolding row constraint_row_def Let_def BS_def by auto
  have eq: "fold row [0..<Suc k] Sx = row k ?Sk" by simp
  have inrow: "Sp ! i * BS \<le> j * BS + e \<and> j * BS + e < Sp ! (i + 1) * BS"
    if "j \<in> {Sp ! i..<Sp ! (i + 1)}" "e < BS" for i j e
  proof -
    have 1: "Sp ! i * BS \<le> j * BS" by (rule mult_le_mono1) (use that(1) in simp)
    have 2: "Suc j * BS \<le> Sp ! (i + 1) * BS" by (rule mult_le_mono1) (use that(1) in simp)
    have 3: "Suc j * BS = j * BS + BS" by simp
    show ?thesis using 1 2 that(2) unfolding 3 by linarith
  qed
  have "\<forall>i<Suc k. \<forall>j\<in>{Sp ! i..<Sp ! (i + 1)}. \<forall>e<BS.
            row k ?Sk ! (j * BS + e) = sub (Sx ! (j * BS + e)) (?U i j ! e)"
  proof (intro allI impI ballI)
    fix i j e assume i: "i < Suc k" and j: "j \<in> {Sp ! i..<Sp ! (i + 1)}" and e: "e < BS"
    note r = inrow[OF j e]
    show "row k ?Sk ! (j * BS + e) = sub (Sx ! (j * BS + e)) (?U i j ! e)"
    proof (cases "i = k")
      case True
      have rk: "Sp ! k * BS \<le> j * BS + e" "j * BS + e < Sp ! (k + 1) * BS"
        using r unfolding True by blast+
      have ql: "j * BS + e < length Sx" using rk abB(2) lenS' by linarith
      have "j * BS + e \<notin> {Sp ! 0 * BS..<Sp ! k * BS}"
        unfolding atLeastLessThan_iff using rk by linarith
      then have "?Sk ! (j * BS + e) = Sx ! (j * BS + e)" using rest ql by simp
      then show ?thesis using new[of j e] j e True by simp
    next
      case False
      then have ik: "i < k" using i by simp
      have "Sp ! (i + 1) \<le> Sp ! k" using monoS[of k "i + 1"] ik kn by simp
      then have le: "Sp ! (i + 1) * BS \<le> Sp ! k * BS" by (rule mult_le_mono1)
      have ql: "j * BS + e < length ?Sk" using r le abB bl by linarith
      have "j * BS + e \<notin> {Sp ! k * BS..<Sp ! (k + 1) * BS}"
        unfolding atLeastLessThan_iff using r le by linarith
      then show ?thesis using old[OF ql] rows[OF ik j e] by simp
    qed
  qed
  moreover have "\<forall>q<length Sx. q \<notin> {Sp ! 0 * BS..<Sp ! Suc k * BS} \<longrightarrow> row k ?Sk ! q = Sx ! q"
  proof (intro allI impI)
    fix q assume ql: "q < length Sx" and q: "q \<notin> {Sp ! 0 * BS..<Sp ! Suc k * BS}"
    have q': "\<not> (Sp ! 0 * BS \<le> q \<and> q < Sp ! (k + 1) * BS)"
      using q unfolding atLeastLessThan_iff by simp
    have n1: "q \<notin> {Sp ! k * BS..<Sp ! (k + 1) * BS}"
      unfolding atLeastLessThan_iff using q' abB by linarith
    have n2: "q \<notin> {Sp ! 0 * BS..<Sp ! k * BS}"
      unfolding atLeastLessThan_iff using q' abB by linarith
    show "row k ?Sk ! q = Sx ! q" using old[of q] ql len n1 rest[OF ql n2] by simp
  qed
  ultimately show ?case unfolding eq using len len' unfolding BS_def by simp
qed


lemma block_index_bound:
  assumes "r < m" "c < n"
  shows "r * n + c < m * (n :: nat)"
proof -
  have "r * n + c < (r + 1) * n" using assms(2) by simp
  also have "\<dots> \<le> m * n" using assms(1) by (intro mult_le_mono1) simp
  finally show ?thesis .
qed

lemma satisfy_constraints_blocks:
  assumes mono: "\<forall>i<num_block_rows. Sp ! i \<le> Sp ! (i + 1)"
    and lenS: "Sp ! num_block_rows * (RowsPerBlock * ColsPerBlock) \<le> length Sx"
    and res: "satisfy_constraints_helper sub gemmC gemmU RowsPerBlock ColsPerBlock num_block_rows
                NullDim Bt UB BtBinv Sp Sj Sx = Sx'"
  shows "length Sx' = length Sx"
    and "\<And>i j e. i < num_block_rows \<Longrightarrow> j \<in> {Sp ! i..<Sp ! (i + 1)} \<Longrightarrow>
           e < RowsPerBlock * ColsPerBlock \<Longrightarrow>
           Sx' ! (j * (RowsPerBlock * ColsPerBlock) + e) =
           sub (Sx ! (j * (RowsPerBlock * ColsPerBlock) + e))
             (update_block gemmC gemmU RowsPerBlock ColsPerBlock NullDim Bt UB BtBinv Sj i j ! e)"
    and "\<And>q. q < length Sx \<Longrightarrow>
           q \<notin> {Sp ! 0 * (RowsPerBlock * ColsPerBlock)..<
                 Sp ! num_block_rows * (RowsPerBlock * ColsPerBlock)} \<Longrightarrow> Sx' ! q = Sx ! q"
proof -
  have Sx': "Sx' = fold (constraint_row sub gemmC gemmU RowsPerBlock ColsPerBlock NullDim Bt UB BtBinv Sp Sj)
                     [0..<num_block_rows] Sx"
    using res by (simp add: satisfy_constraints_helper_def)
  note f = constraints_fold[OF mono lenS le_refl refl, of sub gemmC gemmU NullDim Bt UB BtBinv Sj,
      folded Sx']
  show "length Sx' = length Sx" using f by blast
  show "Sx' ! q = Sx ! q" if "q < length Sx"
    "q \<notin> {Sp ! 0 * (RowsPerBlock * ColsPerBlock)..<Sp ! num_block_rows * (RowsPerBlock * ColsPerBlock)}"
    for q using f that by blast
  show "Sx' ! (j * (RowsPerBlock * ColsPerBlock) + e) =
           sub (Sx ! (j * (RowsPerBlock * ColsPerBlock) + e))
             (update_block gemmC gemmU RowsPerBlock ColsPerBlock NullDim Bt UB BtBinv Sj i j ! e)"
    if "i < num_block_rows" "j \<in> {Sp ! i..<Sp ! (i + 1)}" "e < RowsPerBlock * ColsPerBlock"
    for i j e using f that by blast
qed

lemma satisfy_constraints_exact_entry:
  fixes Sx :: "'a::comm_ring_1 list"
  assumes mono: "\<forall>i<num_block_rows. Sp ! i \<le> Sp ! (i + 1)"
    and lenS: "Sp ! num_block_rows * (RowsPerBlock * ColsPerBlock) \<le> length Sx"
    and res: "satisfy_constraints_helper (-) gemm_ABt gemm_AB RowsPerBlock ColsPerBlock num_block_rows
                NullDim Bt UB BtBinv Sp Sj Sx = Sx'"
    and i: "i < num_block_rows" and j: "j \<in> {Sp ! i..<Sp ! (i + 1)}"
    and r: "r < RowsPerBlock" and c: "c < ColsPerBlock"
  shows "block_entry RowsPerBlock ColsPerBlock Sx' j r c =
         block_entry RowsPerBlock ColsPerBlock Sx j r c -
         update_entry RowsPerBlock ColsPerBlock NullDim Bt UB BtBinv Sj i j r c"
proof -
  have e: "r * ColsPerBlock + c < RowsPerBlock * ColsPerBlock"
    using block_index_bound[OF r c] .
  from satisfy_constraints_blocks(2)[OF mono lenS res i j e]
  show ?thesis
    unfolding update_block_nth[OF r c] block_entry_def add.assoc .
qed

lemma satisfy_constraints_exact_projection:
  fixes Sx :: "'a::comm_ring_1 list"
  assumes mono: "\<forall>i<num_block_rows. Sp ! i \<le> Sp ! (i + 1)"
    and lenS: "Sp ! num_block_rows * (RowsPerBlock * ColsPerBlock) \<le> length Sx"
    and res: "satisfy_constraints_helper (-) gemm_ABt gemm_AB RowsPerBlock ColsPerBlock num_block_rows
                NullDim Bt UB BtBinv Sp Sj Sx = Sx'"
    and i: "i < num_block_rows" and r: "r < RowsPerBlock" and a: "a < NullDim"
    and ub: "\<forall>r<RowsPerBlock. \<forall>a<NullDim. block_entry RowsPerBlock NullDim UB i r a =
               SB_entry RowsPerBlock ColsPerBlock NullDim Sp Sj Sx B i r a"
    and inv: "\<forall>a'<NullDim. \<forall>a<NullDim.
               (\<Sum>b<NullDim. block_entry NullDim NullDim BtBinv i a' b *
                              gram_entry ColsPerBlock NullDim Sp Sj Bt B i b a)
               = (if a' = a then 1 else 0)"
  shows "SB_entry RowsPerBlock ColsPerBlock NullDim Sp Sj Sx' B i r a = 0"
proof -
  let ?js = "[Sp ! i..<Sp ! (i + 1)]"
  let ?S = "\<lambda>j c. block_entry RowsPerBlock ColsPerBlock Sx j r c"
  let ?X = "\<lambda>j c b. block_entry ColsPerBlock NullDim Bt (Sj ! j) c b"
  let ?B = "\<lambda>j c b. block_entry ColsPerBlock NullDim B (Sj ! j) c b"
  let ?U = "\<lambda>a'. block_entry RowsPerBlock NullDim UB i r a'"
  let ?G = "\<lambda>a' b. block_entry NullDim NullDim BtBinv i a' b"
  note ent = satisfy_constraints_exact_entry[OF mono lenS res i _ r]
  have "SB_entry RowsPerBlock ColsPerBlock NullDim Sp Sj Sx' B i r a
      = (\<Sum>j\<leftarrow>?js. \<Sum>c<ColsPerBlock.
           (?S j c - (\<Sum>a'<NullDim. ?U a' * (\<Sum>b<NullDim. ?G a' b * ?X j c b))) * ?B j c a)"
    unfolding SB_entry_def
    by (intro arg_cong[where f = sum_list] map_cong refl sum.cong)
       (simp add: ent update_entry_def)
  also have "\<dots> = (\<Sum>j\<leftarrow>?js. \<Sum>c<ColsPerBlock. ?S j c * ?B j c a)
      - (\<Sum>j\<leftarrow>?js. \<Sum>c<ColsPerBlock.
           (\<Sum>a'<NullDim. ?U a' * (\<Sum>b<NullDim. ?G a' b * ?X j c b)) * ?B j c a)"
    by (simp add: left_diff_distrib sum_subtractf sum_list_subtractf)
  also have "(\<Sum>j\<leftarrow>?js. \<Sum>c<ColsPerBlock.
           (\<Sum>a'<NullDim. ?U a' * (\<Sum>b<NullDim. ?G a' b * ?X j c b)) * ?B j c a) = ?U a"
    by (rule projection_sum[OF _ a]) (use inv a in \<open>simp add: gram_entry_def\<close>)
  also have "(\<Sum>j\<leftarrow>?js. \<Sum>c<ColsPerBlock. ?S j c * ?B j c a) = ?U a"
    using ub r a by (simp add: SB_entry_def)
  finally show ?thesis by simp
qed

text \<open>
  Claim C5, as amended. In whatever arithmetic the kernel runs (the parameters \<open>sub\<close>,
  \<open>gemmC\<close>, \<open>gemmU\<close>): for every block row \<open>i\<close> and every stored position \<open>j\<close> of the row, every
  entry of the block at \<open>j\<close> is replaced by its prior value minus the entry of the block
  \<open>Update\<close> that the two calls of \<open>gemm\<close> compute from \<open>UB[i]\<close>, \<open>BtBinv[i]\<close> and block \<open>Sj[j]\<close> of
  \<open>x\<close>, and no other entry of \<open>Sx\<close> changes. In exact arithmetic \<open>Update\<close> is
  \<open>UB[i] * (BtBinv[i] * B[Sj[j]]\<^sup>H)\<close>, and then, for every block row \<open>i\<close> with
  \<open>UB[i] = (S * B)[i]\<close> and \<open>BtBinv[i]\<close> an inverse of the Gram matrix of the candidates over the
  stored positions of the row, block row \<open>i\<close> of the corrected product \<open>S * B\<close> is zero. Here
  \<open>Bt\<close> is the array \<open>x\<close> of the conjugates and \<open>B\<close> the array of the candidates; for real
  scalars they are the same array.
\<close>

theorem satisfy_constraints_helper_projects:
  fixes Sx :: "'a::comm_ring_1 list"
  assumes wf: "csr_wf num_block_rows n_bcol Sp Sj"
    and lens: "Sp ! num_block_rows * (RowsPerBlock * ColsPerBlock) \<le> length Sx"
      "n_bcol * (ColsPerBlock * NullDim) \<le> length Bt"
      "num_block_rows * (RowsPerBlock * NullDim) \<le> length UB"
      "num_block_rows * (NullDim * NullDim) \<le> length BtBinv"
    and res: "satisfy_constraints_helper sub gemmC gemmU RowsPerBlock ColsPerBlock num_block_rows
                NullDim Bt UB BtBinv Sp Sj Sx = Sx'"
  shows "length Sx' = length Sx \<and>
         (\<forall>i<num_block_rows. \<forall>j\<in>{Sp ! i..<Sp ! (i + 1)}. \<forall>e<RowsPerBlock * ColsPerBlock.
            Sx' ! (j * (RowsPerBlock * ColsPerBlock) + e) =
            sub (Sx ! (j * (RowsPerBlock * ColsPerBlock) + e))
              (update_block gemmC gemmU RowsPerBlock ColsPerBlock NullDim Bt UB BtBinv Sj i j ! e)) \<and>
         (\<forall>q<length Sx. q \<notin> {Sp ! 0 * (RowsPerBlock * ColsPerBlock)..<
                                Sp ! num_block_rows * (RowsPerBlock * ColsPerBlock)} \<longrightarrow>
            Sx' ! q = Sx ! q) \<and>
         (sub = (-) \<and> gemmC = gemm_ABt \<and> gemmU = gemm_AB \<longrightarrow>
            (\<forall>i<num_block_rows. \<forall>j\<in>{Sp ! i..<Sp ! (i + 1)}. \<forall>r<RowsPerBlock. \<forall>c<ColsPerBlock.
               block_entry RowsPerBlock ColsPerBlock Sx' j r c =
               block_entry RowsPerBlock ColsPerBlock Sx j r c -
               update_entry RowsPerBlock ColsPerBlock NullDim Bt UB BtBinv Sj i j r c) \<and>
            (\<forall>i<num_block_rows.
               (\<forall>r<RowsPerBlock. \<forall>a<NullDim. block_entry RowsPerBlock NullDim UB i r a =
                    SB_entry RowsPerBlock ColsPerBlock NullDim Sp Sj Sx B i r a) \<and>
               (\<forall>a'<NullDim. \<forall>a<NullDim.
                    (\<Sum>b<NullDim. block_entry NullDim NullDim BtBinv i a' b *
                                   gram_entry ColsPerBlock NullDim Sp Sj Bt B i b a)
                    = (if a' = a then 1 else 0)) \<longrightarrow>
               (\<forall>r<RowsPerBlock. \<forall>a<NullDim.
                    SB_entry RowsPerBlock ColsPerBlock NullDim Sp Sj Sx' B i r a = 0)))"
proof -
  note mono = csr_wf_mono[OF wf]
  note b = satisfy_constraints_blocks[OF mono lens(1) res]
  have p1: "\<forall>i<num_block_rows. \<forall>j\<in>{Sp ! i..<Sp ! (i + 1)}. \<forall>e<RowsPerBlock * ColsPerBlock.
            Sx' ! (j * (RowsPerBlock * ColsPerBlock) + e) =
            sub (Sx ! (j * (RowsPerBlock * ColsPerBlock) + e))
              (update_block gemmC gemmU RowsPerBlock ColsPerBlock NullDim Bt UB BtBinv Sj i j ! e)"
    using b(2) by blast
  have p2: "\<forall>q<length Sx. q \<notin> {Sp ! 0 * (RowsPerBlock * ColsPerBlock)..<
                                Sp ! num_block_rows * (RowsPerBlock * ColsPerBlock)} \<longrightarrow>
            Sx' ! q = Sx ! q"
    using b(3) by blast
  have p3: "(\<forall>i<num_block_rows. \<forall>j\<in>{Sp ! i..<Sp ! (i + 1)}. \<forall>r<RowsPerBlock. \<forall>c<ColsPerBlock.
               block_entry RowsPerBlock ColsPerBlock Sx' j r c =
               block_entry RowsPerBlock ColsPerBlock Sx j r c -
               update_entry RowsPerBlock ColsPerBlock NullDim Bt UB BtBinv Sj i j r c) \<and>
            (\<forall>i<num_block_rows.
               (\<forall>r<RowsPerBlock. \<forall>a<NullDim. block_entry RowsPerBlock NullDim UB i r a =
                    SB_entry RowsPerBlock ColsPerBlock NullDim Sp Sj Sx B i r a) \<and>
               (\<forall>a'<NullDim. \<forall>a<NullDim.
                    (\<Sum>b<NullDim. block_entry NullDim NullDim BtBinv i a' b *
                                   gram_entry ColsPerBlock NullDim Sp Sj Bt B i b a)
                    = (if a' = a then 1 else 0)) \<longrightarrow>
               (\<forall>r<RowsPerBlock. \<forall>a<NullDim.
                    SB_entry RowsPerBlock ColsPerBlock NullDim Sp Sj Sx' B i r a = 0))"
    if ex: "sub = (-) \<and> gemmC = gemm_ABt \<and> gemmU = gemm_AB"
  proof -
    have res': "satisfy_constraints_helper (-) gemm_ABt gemm_AB RowsPerBlock ColsPerBlock num_block_rows
                NullDim Bt UB BtBinv Sp Sj Sx = Sx'"
      using res ex by simp
    note ent = satisfy_constraints_exact_entry[OF mono lens(1) res']
    note prj = satisfy_constraints_exact_projection[OF mono lens(1) res']
    show ?thesis using ent prj by blast
  qed
  show ?thesis using b(1) p1 p2 p3 by blast
qed


text \<open>
  The theorem in exact arithmetic at one block row with two 1 by 1 blocks, two candidates
  \<open>B\<^sub>0 = (1 0)\<close>, \<open>B\<^sub>1 = (0 1)\<close>, \<open>S = (5 7)\<close>, \<open>UB = S * B = (5 7)\<close> and \<open>BtBinv\<close> the identity: the
  corrected \<open>S\<close> is zero and so is \<open>S * B\<close>.
\<close>

theorem satisfy_constraints_helper_projects_witness:
  "satisfy_constraints_helper (-) gemm_ABt gemm_AB 1 1 1 2 [1, 0, 0, 1] [5, 7] [1, 0, 0, 1]
     [0, 2] [0, 1] [5, 7 :: int] = [0, 0]
   \<and> [0, 0 :: int] ! (1 * (1 * 1) + 0) =
       [5, 7] ! (1 * (1 * 1) + 0) -
       update_block gemm_ABt gemm_AB 1 1 2 [1, 0, 0, 1] [5, 7] [1, 0, 0, 1] [0, 1] 0 1 ! 0
   \<and> block_entry 1 1 [0, 0 :: int] 1 0 0 =
       block_entry 1 1 [5, 7] 1 0 0 - update_entry 1 1 2 [1, 0, 0, 1] [5, 7] [1, 0, 0, 1] [0, 1] 0 1 0 0
   \<and> SB_entry 1 1 2 [0, 2] [0, 1] [0, 0] [1, 0, 0, 1 :: int] 0 0 0 = 0
   \<and> SB_entry 1 1 2 [0, 2] [0, 1] [0, 0] [1, 0, 0, 1 :: int] 0 0 1 = 0"
proof -
  let ?Bt = "[1, 0, 0, 1 :: int]" and ?UB = "[5, 7 :: int]" and ?G = "[1, 0, 0, 1 :: int]"
  let ?Sp = "[0, 2 :: nat]" and ?Sj = "[0, 1 :: nat]" and ?Sx = "[5, 7 :: int]"
  have wf: "csr_wf 1 2 ?Sp ?Sj" by code_simp
  have l1: "?Sp ! 1 * (1 * 1) \<le> length ?Sx" by simp
  have l2: "2 * (1 * 2) \<le> length ?Bt" by simp
  have l3: "1 * (1 * 2) \<le> length ?UB" by simp
  have l4: "1 * (2 * 2) \<le> length ?G" by simp
  have res: "satisfy_constraints_helper (-) gemm_ABt gemm_AB 1 1 1 2 ?Bt ?UB ?G ?Sp ?Sj ?Sx = [0, 0]"
    by code_simp
  note t = satisfy_constraints_helper_projects[OF wf l1 l2 l3 l4 res, where B = "[1, 0, 0, 1]"]
  have ub: "\<forall>r<1. \<forall>a<2. block_entry 1 2 ?UB 0 r a = SB_entry 1 1 2 ?Sp ?Sj ?Sx ?Bt 0 r a"
  proof (intro allI impI)
    fix r a :: nat assume "r < 1" "a < 2"
    then have ra: "r = 0" "a = 0 \<or> a = 1" by auto
    have "block_entry 1 2 ?UB 0 0 0 = SB_entry 1 1 2 ?Sp ?Sj ?Sx ?Bt 0 0 0"
         "block_entry 1 2 ?UB 0 0 1 = SB_entry 1 1 2 ?Sp ?Sj ?Sx ?Bt 0 0 1"
      by code_simp+
    with ra show "block_entry 1 2 ?UB 0 r a = SB_entry 1 1 2 ?Sp ?Sj ?Sx ?Bt 0 r a" by auto
  qed
  have inv: "\<forall>a'<2. \<forall>a<2. (\<Sum>b<2. block_entry 2 2 ?G 0 a' b * gram_entry 1 2 ?Sp ?Sj ?Bt ?Bt 0 b a)
                 = (if a' = a then 1 else 0)"
  proof (intro allI impI)
    fix a' a :: nat assume "a' < 2" "a < 2"
    then have ra: "a' = 0 \<or> a' = 1" "a = 0 \<or> a = 1" by auto
    have "(\<Sum>b<2. block_entry 2 2 ?G 0 0 b * gram_entry 1 2 ?Sp ?Sj ?Bt ?Bt 0 b 0) = 1"
         "(\<Sum>b<2. block_entry 2 2 ?G 0 0 b * gram_entry 1 2 ?Sp ?Sj ?Bt ?Bt 0 b 1) = 0"
         "(\<Sum>b<2. block_entry 2 2 ?G 0 1 b * gram_entry 1 2 ?Sp ?Sj ?Bt ?Bt 0 b 0) = 0"
         "(\<Sum>b<2. block_entry 2 2 ?G 0 1 b * gram_entry 1 2 ?Sp ?Sj ?Bt ?Bt 0 b 1) = 1"
      by code_simp+
    with ra show "(\<Sum>b<2. block_entry 2 2 ?G 0 a' b * gram_entry 1 2 ?Sp ?Sj ?Bt ?Bt 0 b a)
                 = (if a' = a then 1 else 0)" by auto
  qed
  have z: "0 < (1 :: nat)" "(0 :: nat) < 2" "(1 :: nat) < 2" "(0 :: nat) < 1 * 1" by simp_all
  have j1: "(1 :: nat) \<in> {?Sp ! 0..<?Sp ! (0 + 1)}" by simp
  have ex: "((-) :: int \<Rightarrow> int \<Rightarrow> int) = (-) \<and> (gemm_ABt :: int gemm) = gemm_ABt
            \<and> (gemm_AB :: int gemm) = gemm_AB" by simp
  note p0 = conjunct1[OF conjunct2[OF t], THEN spec, of 0, THEN mp, OF z(1), THEN bspec, OF j1,
      THEN spec, of 0, THEN mp, OF z(4)]
  note e = conjunct2[OF conjunct2[OF conjunct2[OF t]], THEN mp, OF ex]
  note p1 = conjunct1[OF e, THEN spec, of 0, THEN mp, OF z(1), THEN bspec, OF j1,
      THEN spec, of 0, THEN mp, OF z(1), THEN spec, of 0, THEN mp, OF z(1)]
  note p2 = conjunct2[OF e, THEN spec, of 0, THEN mp, OF z(1),
      THEN mp, OF conjI[OF ub inv], THEN spec, of 0, THEN mp, OF z(1)]
  from res p0 p1 p2[THEN spec, of 0, THEN mp, OF z(2)] p2[THEN spec, of 1, THEN mp, OF z(3)]
  show ?thesis by blast
qed

text \<open>
  Claim C5 as stated fails in the arithmetic of \<open>double\<close>. One block row with four 1 by 1
  blocks, one candidate: \<open>S = (2\<^sup>5\<^sup>3, -1, 0, 0)\<close>, \<open>B = (1, 1, 1, 1)\<close>, \<open>UB = 2\<^sup>5\<^sup>3 - 1\<close> and
  \<open>BtBinv = 1/4\<close>. All these numbers are doubles, \<open>UB\<close> is \<open>S * B\<close> and \<open>BtBinv\<close> is the inverse of
  the Gram matrix \<open>(4)\<close>, exactly. The update of every block is \<open>(2\<^sup>5\<^sup>3 - 1) / 4\<close>, computed
  without rounding, but the subtractions at positions 0 and 1 round: the kernel leaves
  \<open>3 * 2\<^sup>5\<^sup>1\<close> at position 0, not \<open>2\<^sup>5\<^sup>3 - (2\<^sup>5\<^sup>3 - 1) / 4\<close>, and the corrected \<open>S * B\<close> is \<open>-1/2\<close>, not
  zero.
\<close>

theorem satisfy_constraints_double_counterexample:
  "satisfy_constraints_helper double_sub double_gemm_ABt double_gemm_AB 1 1 1 1
     [1, 1, 1, 1] [9007199254740991] [1 / 4] [0, 4] [0, 1, 2, 3] [9007199254740992, - 1, 0, 0]
     = [6755399441055744, - 2251799813685249, - (9007199254740991 / 4), - (9007199254740991 / 4)]
   \<and> block_entry 1 1 [9007199254740991 :: real] 0 0 0 =
       SB_entry 1 1 1 [0, 4] [0, 1, 2, 3] [9007199254740992, - 1, 0, 0] [1, 1, 1, 1] 0 0 0
   \<and> block_entry 1 1 [1 / 4 :: real] 0 0 0 *
       gram_entry 1 1 [0, 4] [0, 1, 2, 3] [1, 1, 1, 1] [1, 1, 1, 1] 0 0 0 = 1
   \<and> 6755399441055744 \<noteq>
       block_entry 1 1 [9007199254740992, - 1, 0, 0 :: real] 0 0 0 -
       update_entry 1 1 1 [1, 1, 1, 1] [9007199254740991] [1 / 4] [0, 1, 2, 3] 0 0 0 0
   \<and> SB_entry 1 1 1 [0, 4] [0, 1, 2, 3]
       [6755399441055744, - 2251799813685249, - (9007199254740991 / 4), - (9007199254740991 / 4)]
       [1, 1, 1, 1 :: real] 0 0 0 = - (1 / 2)"
proof -
  have u: "[0..<4 :: nat] = [0, 1, 2, 3]" by (simp add: upt_rec)
  have k: "satisfy_constraints_helper double_sub double_gemm_ABt double_gemm_AB 1 1 1 1
     [1, 1, 1, 1] [9007199254740991] [1 / 4] [0, 4] [0, 1, 2, 3] [9007199254740992, - 1, 0, 0]
     = [6755399441055744, - 2251799813685249, - (9007199254740991 / 4), - (9007199254740991 / 4)]"
    by (simp add: satisfy_constraints_helper_def constraint_row_def correct_block_def
        double_gemm_ABt_def double_gemm_AB_def double_add_def double_sub_def double_mul_def
        round_double_examples u Let_def)
  have h1: "block_entry 1 1 [9007199254740991 :: real] 0 0 0 =
       SB_entry 1 1 1 [0, 4] [0, 1, 2, 3] [9007199254740992, - 1, 0, 0] [1, 1, 1, 1] 0 0 0"
    by (simp add: block_entry_def SB_entry_def u)
  have h2: "block_entry 1 1 [1 / 4 :: real] 0 0 0 *
       gram_entry 1 1 [0, 4] [0, 1, 2, 3] [1, 1, 1, 1] [1, 1, 1, 1] 0 0 0 = 1"
    by (simp add: block_entry_def gram_entry_def u)
  have d1: "6755399441055744 \<noteq>
       block_entry 1 1 [9007199254740992, - 1, 0, 0 :: real] 0 0 0 -
       update_entry 1 1 1 [1, 1, 1, 1] [9007199254740991] [1 / 4] [0, 1, 2, 3] 0 0 0 0"
    by (simp add: block_entry_def update_entry_def)
  have d2: "SB_entry 1 1 1 [0, 4] [0, 1, 2, 3]
       [6755399441055744, - 2251799813685249, - (9007199254740991 / 4), - (9007199254740991 / 4)]
       [1, 1, 1, 1 :: real] 0 0 0 = - (1 / 2)"
    by (simp add: block_entry_def SB_entry_def u)
  show ?thesis using k h1 h2 d1 d2 by blast
qed

end
